theory Spec2Isabelle
  imports Complex_Main "HOL-Library.Word" "HOL-Library.Signed_Division"
begin

unbundle bit_operations_syntax

section \<open>RegionSamplingThread: the histogram sampler\<close>

text \<open>
  The embedding follows \<^verbatim>\<open>services/surfaceflinger/RegionSamplingThread.cpp\<close>.
  Values of \<^verbatim>\<open>int32_t\<close> are integers; an operation whose mathematical result
  leaves the 32-bit signed range is undefined behaviour in C++ and is the value
  \<open>Inl SignedOverflow\<close> here. A read outside the pixel buffer or outside the bucket
  array is undefined behaviour too, and is an error value that carries the index read.
\<close>

datatype error = SignedOverflow | PixelOutOfBounds int | BucketOutOfBounds nat

definition in_int32 :: "int \<Rightarrow> bool" where
  "in_int32 v \<longleftrightarrow> - 2147483648 \<le> v \<and> v \<le> 2147483647"

text \<open>
  Modelled from the spec: \<^verbatim>\<open>ui/Rect.h\<close> and \<^verbatim>\<open>ui/Point.h\<close> are not among the
  sources. A rectangle has the four edges the source reads (\<^verbatim>\<open>area.left\<close>,
  \<^verbatim>\<open>area.top\<close>, \<^verbatim>\<open>area.right\<close>, \<^verbatim>\<open>area.bottom\<close>); its width and height are
  the extents of the half-open ranges the scan walks, and subtracting a point translates
  it into buffer-local coordinates.
\<close>

record Rect =
  left :: int
  top_r :: int
  right :: int
  bottom :: int

record Point =
  px :: int
  py :: int

definition getWidth :: "Rect \<Rightarrow> int" where
  "getWidth r = right r - left r"

definition getHeight :: "Rect \<Rightarrow> int" where
  "getHeight r = bottom r - top_r r"

definition leftTop :: "Rect \<Rightarrow> Point" where
  "leftTop r = \<lparr>px = left r, py = top_r r\<rparr>"

definition rect_minus :: "Rect \<Rightarrow> Point \<Rightarrow> Rect" where
  "rect_minus r p =
     \<lparr>left = left r - px p, top_r = top_r r - py p, right = right r - px p,
       bottom = bottom r - py p\<rparr>"

subsection \<open>Single precision\<close>

text \<open>
  The type \<^verbatim>\<open>float\<close> is IEEE 754 binary32. A finite value of it is a real number, and
  \<open>f32\<close> is the rounding that every operation of the source on floats ends with: to the
  nearest value with a significand of 24 bits, ties to the even significand. \<open>f32up\<close>
  doubles a positive number until it is at least \<open>2 ^ 23\<close>, at most 149 times, which is
  where the subnormal numbers begin, rounds it to an integer there and scales back;
  \<open>f32down\<close> first halves a number that is \<open>2 ^ 24\<close> or more. Overflow to infinity is
  not part of the model: no value that lines 87 to 105 compute exceeds 256. Each
  operation is rounded on its own; no multiplication is fused with an addition.
\<close>

definition roundEven :: "real \<Rightarrow> int" where
  "roundEven v =
     (let n = \<lfloor>v\<rfloor>; d = v - of_int n
      in if d < 1 / 2 then n else if 1 / 2 < d then n + 1 else if even n then n else n + 1)"

function f32up :: "nat \<Rightarrow> real \<Rightarrow> real" where
  "f32up fuel v =
     (if 8388608 \<le> v \<or> fuel = 0 then of_int (roundEven v)
      else f32up (fuel - 1) (2 * v) / 2)"
  by pat_completeness auto
termination
  by (relation "measure (\<lambda>(fuel, v). fuel)") auto

declare f32up.simps [simp del]

function f32down :: "nat \<Rightarrow> real \<Rightarrow> real" where
  "f32down fuel v =
     (if v < 16777216 \<or> fuel = 0 then f32up 149 v
      else 2 * f32down (fuel - 1) (v / 2))"
  by pat_completeness auto
termination
  by (relation "measure (\<lambda>(fuel, v). fuel)") auto

declare f32down.simps [simp del]

definition f32 :: "real \<Rightarrow> real" where
  "f32 v = (if v = 0 then 0 else if v < 0 then - f32down 104 (- v) else f32down 104 v)"

subsection \<open>Luma of a pixel\<close>

text \<open>
  \<^verbatim>\<open>getLuma\<close> and lines 102 to 105 in single precision: the three constants are the
  floats nearest to the decimal literals, every product, sum and quotient is rounded, and
  \<^verbatim>\<open>std::round\<close> on a float that is not negative is \<open>round\<close>. \<open>lumaLevel\<close> is the
  \<^verbatim>\<open>uint8_t\<close> of line 105. \<open>sampleArea\<close> below takes the discretisation as a parameter
  \<open>lumaOf\<close>, any function from a pixel to a \<^verbatim>\<open>uint8_t\<close>; \<open>lumaLevel\<close> is the instance
  that the source computes.
\<close>

definition getLuma :: "real \<Rightarrow> real \<Rightarrow> real \<Rightarrow> real" where
  "getLuma r g b =
     (let rec709_red_primary = f32 0.2126;
          rec709_green_primary = f32 0.7152;
          rec709_blue_primary = f32 0.0722
      in f32 (f32 (f32 (rec709_red_primary * r) + f32 (rec709_green_primary * g))
              + f32 (rec709_blue_primary * b)))"

definition pixelLuma :: "32 word \<Rightarrow> real" where
  "pixelLuma pixel =
     (let r = f32 (real (unat (pixel AND 0xFF)) / 255);
          g = f32 (real (unat (drop_bit 8 pixel AND 0xFF)) / 255);
          b = f32 (real (unat (drop_bit 16 pixel AND 0xFF)) / 255)
      in getLuma r g b)"

definition lumaLevel :: "32 word \<Rightarrow> 8 word" where
  "lumaLevel pixel = word_of_int (round (f32 (pixelLuma pixel * 255)))"

subsection \<open>The scan with its early exit\<close>

definition readPixel :: "32 word list \<Rightarrow> int \<Rightarrow> error + 32 word" where
  "readPixel data i =
     (if 0 \<le> i \<and> i < int (length data) then Inr (data ! nat i) else Inl (PixelOutOfBounds i))"

text \<open>
  The inner loop of \<^verbatim>\<open>sampleArea\<close> over the columns of one row. The result is the
  level returned by the early exit, if it was taken, and the buckets.
\<close>

function scanColumns ::
  "(32 word \<Rightarrow> 8 word) \<Rightarrow> 32 word list \<Rightarrow> int \<Rightarrow> Rect \<Rightarrow> int \<Rightarrow> int \<Rightarrow> int list
     \<Rightarrow> error + (8 word option \<times> int list)" where
  "scanColumns lumaOf data rowBase area majoritySampleNum column brightnessBuckets =
     (if column < right area then
        (case readPixel data (rowBase + column) of
           Inl e \<Rightarrow> Inl e
         | Inr pixel \<Rightarrow>
             (let luma = lumaOf pixel;
                  buckets' = brightnessBuckets[unat luma := brightnessBuckets ! unat luma + 1]
              in if buckets' ! unat luma > majoritySampleNum then Inr (Some luma, buckets')
                 else scanColumns lumaOf data rowBase area majoritySampleNum (column + 1) buckets'))
      else Inr (None, brightnessBuckets))"
  by pat_completeness auto
termination
  by (relation "measure (\<lambda>(lumaOf, data, rowBase, area, m, column, b). nat (right area - column))")
    auto

declare scanColumns.simps [simp del]

text \<open>The outer loop over the rows; \<^verbatim>\<open>rowBase\<close> is \<^verbatim>\<open>data + row * stride\<close>.\<close>

function scanRows ::
  "(32 word \<Rightarrow> 8 word) \<Rightarrow> 32 word list \<Rightarrow> int \<Rightarrow> Rect \<Rightarrow> int \<Rightarrow> int \<Rightarrow> int list
     \<Rightarrow> error + (8 word option \<times> int list)" where
  "scanRows lumaOf data stride area majoritySampleNum row brightnessBuckets =
     (if row < bottom area then
        (if \<not> in_int32 (row * stride) then Inl SignedOverflow
         else
           (case scanColumns lumaOf data (row * stride) area majoritySampleNum (left area)
                   brightnessBuckets of
              Inl e \<Rightarrow> Inl e
            | Inr (Some luma, buckets') \<Rightarrow> Inr (Some luma, buckets')
            | Inr (None, buckets') \<Rightarrow>
                scanRows lumaOf data stride area majoritySampleNum (row + 1) buckets'))
      else Inr (None, brightnessBuckets))"
  by pat_completeness auto
termination
  by (relation "measure (\<lambda>(lumaOf, data, stride, area, m, row, b). nat (bottom area - row))")
    auto

declare scanRows.simps [simp del]

subsection \<open>The histogram fallback\<close>

text \<open>
  Lines 111 to 116. The loop header \<^verbatim>\<open>bucket++ < brightnessBuckets.size()\<close> compares
  the old value of \<^verbatim>\<open>bucket\<close> and increments it before the body indexes the array, and
  also when the comparison fails. The result is the value of \<^verbatim>\<open>bucket\<close> after the loop.
\<close>

function histogramFallback :: "int list \<Rightarrow> int \<Rightarrow> int \<Rightarrow> nat \<Rightarrow> error + nat" where
  "histogramFallback brightnessBuckets majoritySampleNum accumulated bucket =
     (if bucket < length brightnessBuckets then
        (let bucket' = bucket + 1 in
         if \<not> bucket' < length brightnessBuckets then Inl (BucketOutOfBounds bucket')
         else
           (let accumulated' = accumulated + brightnessBuckets ! bucket' in
            if accumulated' > majoritySampleNum then Inr bucket'
            else histogramFallback brightnessBuckets majoritySampleNum accumulated' bucket'))
      else Inr (bucket + 1))"
  by pat_completeness auto
termination
  by (relation "measure (\<lambda>(b, m, acc, bucket). length b - bucket)") auto

declare histogramFallback.simps [simp del]

definition sampleArea ::
  "(32 word \<Rightarrow> 8 word) \<Rightarrow> 32 word list \<Rightarrow> int \<Rightarrow> Rect \<Rightarrow> error + real" where
  "sampleArea lumaOf data stride area =
     (if \<not> (in_int32 (getWidth area) \<and> in_int32 (getHeight area)
             \<and> in_int32 (getWidth area * getHeight area))
      then Inl SignedOverflow
      else
        (let majoritySampleNum = (getWidth area * getHeight area) sdiv 2 in
         case scanRows lumaOf data stride area majoritySampleNum (top_r area) (replicate 256 0) of
           Inl e \<Rightarrow> Inl e
         | Inr (Some luma, buckets') \<Rightarrow> Inr (real (unat luma) / 255)
         | Inr (None, buckets') \<Rightarrow>
             (case histogramFallback buckets' majoritySampleNum 0 0 of
                Inl e \<Rightarrow> Inl e
              | Inr bucket \<Rightarrow> Inr (real bucket / 255))))"

section \<open>The descriptor registry\<close>

text \<open>
  Modelled from the spec: \<^verbatim>\<open>RegionSamplingThread.h\<close>, \<^verbatim>\<open>Layer.h\<close> and the IBinder
  headers are not among the sources. A listener is an interface object together with the
  channel identity \<^verbatim>\<open>IInterface::asBinder\<close> returns for it; a layer handle names its owner; a
  descriptor holds the three fields that line 66 initialises and lines 169 and 188
  destructure. A weak pointer to a layer is the layer's identity, \<open>None\<close> for
  \<^verbatim>\<open>nullptr\<close>.
\<close>

record Listener =
  iface :: nat
  asBinder :: nat

record Handle =
  owner :: nat

record Descriptor =
  area :: Rect
  stopLayer :: "nat option"
  listener :: Listener

text \<open>
  \<^verbatim>\<open>mDescriptors\<close> is a map of the standard library from the channel identity to the
  descriptor (the source iterates over its key and value pairs, and calls \<^verbatim>\<open>emplace\<close> and
  \<^verbatim>\<open>erase\<close> on it): an association list with one entry per key. The order of the list
  stands for the iteration order of the map, which the source does not control. As in
  every map of the standard library, \<^verbatim>\<open>emplace\<close> inserts only when the key is absent and
  leaves the map as it is otherwise; \<^verbatim>\<open>erase\<close> removes the entry of a key.
\<close>

definition emplace :: "'k \<Rightarrow> 'v \<Rightarrow> ('k \<times> 'v) list \<Rightarrow> ('k \<times> 'v) list" where
  "emplace k v m = (if k \<in> fst ` set m then m else m @ [(k, v)])"

definition erase :: "'k \<Rightarrow> ('k \<times> 'v) list \<Rightarrow> ('k \<times> 'v) list" where
  "erase k m = filter (\<lambda>kv. fst kv \<noteq> k) m"

text \<open>The state the mutex \<^verbatim>\<open>mMutex\<close> guards.\<close>

record State =
  mDescriptors :: "(nat \<times> Descriptor) list"
  mSampleRequested :: bool
  mRunning :: bool

text \<open>
  \<^verbatim>\<open>addListener\<close> also calls \<^verbatim>\<open>linkToDeath\<close> on the channel object, which changes that
  object and nothing of \<open>State\<close>.
\<close>

definition addListener :: "Rect \<Rightarrow> Handle option \<Rightarrow> Listener \<Rightarrow> State \<Rightarrow> State" where
  "addListener samplingArea stopLayerHandle l st =
     (let stopLayer' = (case stopLayerHandle of Some h \<Rightarrow> Some (owner h) | None \<Rightarrow> None)
      in st\<lparr>mDescriptors :=
              emplace (asBinder l) \<lparr>area = samplingArea, stopLayer = stopLayer', listener = l\<rparr>
                (mDescriptors st)\<rparr>)"

definition removeListener :: "Listener \<Rightarrow> State \<Rightarrow> State" where
  "removeListener l st = st\<lparr>mDescriptors := erase (asBinder l) (mDescriptors st)\<rparr>"

definition sampleNow :: "State \<Rightarrow> State" where
  "sampleNow st = st\<lparr>mSampleRequested := True\<rparr>"

definition binderDied :: "nat \<Rightarrow> State \<Rightarrow> State" where
  "binderDied who st = st\<lparr>mDescriptors := erase who (mDescriptors st)\<rparr>"

section \<open>One sampling pass\<close>

text \<open>
  \<^verbatim>\<open>std::transform\<close> with a function that can fail: the first failure is the result.
\<close>

fun transform_areas :: "('a \<Rightarrow> error + 'b) \<Rightarrow> 'a list \<Rightarrow> error + 'b list" where
  "transform_areas f [] = Inr []"
| "transform_areas f (d # ds) =
     (case f d of
        Inl e \<Rightarrow> Inl e
      | Inr v \<Rightarrow> (case transform_areas f ds of Inl e \<Rightarrow> Inl e | Inr vs \<Rightarrow> Inr (v # vs)))"

text \<open>
  \<^verbatim>\<open>sampleBuffer\<close>. The argument \<open>locked\<close> is what \<^verbatim>\<open>buffer->lock\<close> stores in
  \<^verbatim>\<open>data_raw\<close>: \<open>None\<close> for a null pointer, otherwise the pixels of the buffer.
\<close>

definition sampleBuffer ::
  "(32 word \<Rightarrow> 8 word) \<Rightarrow> 32 word list option \<Rightarrow> int \<Rightarrow> Point \<Rightarrow> Descriptor list
     \<Rightarrow> error + real list" where
  "sampleBuffer lumaOf locked stride leftTop' descriptors =
     (case locked of
        None \<Rightarrow> Inr []
      | Some data \<Rightarrow>
          transform_areas
            (\<lambda>descriptor. sampleArea lumaOf data stride (rect_minus (area descriptor) leftTop'))
            descriptors)"

text \<open>
  Modelled from the spec: \<^verbatim>\<open>Layer.h\<close> and \<^verbatim>\<open>ui/Transform.h\<close> are not among the
  sources. A layer as the filter sees it: its identity, which line 170 compares with the
  stop layers, and the rectangle \<^verbatim>\<open>transformed\<close> that lines 177 to 180 compute from
  its bounds and its transform.
\<close>

record Layer =
  layerId :: nat
  transformed :: Rect

text \<open>
  The variables the lambda \<^verbatim>\<open>filterVisitor\<close> captures by reference, and the layers it
  has handed to \<^verbatim>\<open>visitor\<close>.
\<close>

record Traversal =
  stopLayerFound :: bool
  listeners :: "Listener set"
  visited :: "Layer list"

text \<open>
  Lines 187 to 193: the loop over the descriptors that inserts the listener of every
  descriptor whose area the layer intersects. \<^verbatim>\<open>Rect::intersect\<close> is the parameter
  \<open>intersect\<close>.
\<close>

definition markIntersecting ::
  "(Rect \<Rightarrow> Rect \<Rightarrow> bool) \<Rightarrow> Rect \<Rightarrow> Descriptor list \<Rightarrow> Listener set \<Rightarrow> bool \<times> Listener set" where
  "markIntersecting intersect transformed' descriptors ls =
     fold (\<lambda>d (intersectsAnyArea, ls').
             if intersect transformed' (area d) then (True, insert (listener d) ls')
             else (intersectsAnyArea, ls'))
       descriptors (False, ls)"

definition filterVisitor ::
  "(Rect \<Rightarrow> Rect \<Rightarrow> bool) \<Rightarrow> Descriptor list \<Rightarrow> Rect \<Rightarrow> Layer \<Rightarrow> Traversal \<Rightarrow> Traversal" where
  "filterVisitor intersect descriptors sampledArea layer s =
     (if stopLayerFound s then s
      else if list_ex (\<lambda>d. Some (layerId layer) = stopLayer d) descriptors
        then s\<lparr>stopLayerFound := True\<rparr>
      else if \<not> intersect (transformed layer) sampledArea then s
      else
        (case markIntersecting intersect (transformed layer) descriptors (listeners s) of
           (intersectsAnyArea, ls') \<Rightarrow>
             if \<not> intersectsAnyArea then s\<lparr>listeners := ls'\<rparr>
             else s\<lparr>listeners := ls', visited := visited s @ [layer]\<rparr>))"

text \<open>
  One call of the lambda \<^verbatim>\<open>traverseLayers\<close>: \<^verbatim>\<open>stopLayerFound\<close> starts false, the
  set \<^verbatim>\<open>listeners\<close> is the one of the pass, and \<open>layers\<close> are the layers
  \<^verbatim>\<open>traverseLayersInDisplay\<close> visits, in its order. The result is the set of listeners
  and the layers handed to the visitor.
\<close>

definition traverseLayers ::
  "(Rect \<Rightarrow> Rect \<Rightarrow> bool) \<Rightarrow> Descriptor list \<Rightarrow> Rect \<Rightarrow> Listener set \<Rightarrow> Layer list
     \<Rightarrow> Listener set \<times> Layer list" where
  "traverseLayers intersect descriptors sampledArea ls layers =
     (let s = fold (filterVisitor intersect descriptors sampledArea) layers
                \<lparr>stopLayerFound = False, listeners = ls, visited = []\<rparr>
      in (listeners s, visited s))"

text \<open>
  Modelled from the spec: \<^verbatim>\<open>SurfaceFlinger\<close> and \<^verbatim>\<open>GraphicBuffer\<close> are not among the
  sources. What these collaborators do during one pass: \<^verbatim>\<open>captureScreenCore\<close> calls
  the lambda \<^verbatim>\<open>traverseLayers\<close> once for each element of \<open>traversals\<close>, and
  \<^verbatim>\<open>traverseLayersInDisplay\<close> visits the layers of that element in order; \<open>locked\<close>
  and \<open>getStride\<close> are what \<^verbatim>\<open>buffer->lock\<close> and \<^verbatim>\<open>buffer->getStride()\<close> give
  afterwards; \<open>whileUnlocked\<close> is what other threads do to the guarded state between
  \<^verbatim>\<open>mMutex.unlock()\<close> and \<^verbatim>\<open>mMutex.lock()\<close>.
\<close>

record Capture =
  traversals :: "Layer list list"
  locked :: "32 word list option"
  getStride :: int
  whileUnlocked :: "State \<Rightarrow> State"

definition captureScreenCore ::
  "(Rect \<Rightarrow> Rect \<Rightarrow> bool) \<Rightarrow> Descriptor list \<Rightarrow> Rect \<Rightarrow> Layer list list \<Rightarrow> Listener set" where
  "captureScreenCore intersect descriptors sampledArea ts =
     fold (\<lambda>layers ls. fst (traverseLayers intersect descriptors sampledArea ls layers)) ts {}"

text \<open>
  \<^verbatim>\<open>captureSample\<close>. The result is the list of calls of \<^verbatim>\<open>onSampleCollected\<close>, in
  order, each with its listener and its argument, and the guarded state at the end.
  \<open>regionBounds\<close> is \<^verbatim>\<open>Region::orSelf\<close> over the areas followed by \<^verbatim>\<open>bounds()\<close>.
\<close>

definition activeDescriptors :: "Listener set \<Rightarrow> Descriptor list \<Rightarrow> Descriptor list" where
  "activeDescriptors ls descriptors = filter (\<lambda>descriptor. listener descriptor \<in> ls) descriptors"

definition deliver :: "Descriptor list \<Rightarrow> real list \<Rightarrow> (Listener \<times> real) list" where
  "deliver active lumas = map (\<lambda>d. (listener (active ! d), lumas ! d)) [0..<length active]"

definition captureSample ::
  "(32 word \<Rightarrow> 8 word) \<Rightarrow> (Rect \<Rightarrow> Rect \<Rightarrow> bool) \<Rightarrow> (Rect list \<Rightarrow> Rect) \<Rightarrow> Capture \<Rightarrow> State
     \<Rightarrow> error + ((Listener \<times> real) list \<times> State)" where
  "captureSample lumaOf intersect regionBounds env st =
     (if mDescriptors st = [] then Inr ([], st)
      else
        (let descriptors = map snd (mDescriptors st);
             sampledArea = regionBounds (map area descriptors);
             ls = captureScreenCore intersect descriptors sampledArea (traversals env);
             st' = whileUnlocked env st;
             active = activeDescriptors ls descriptors
         in case sampleBuffer lumaOf (locked env) (getStride env) (leftTop sampledArea) active of
              Inl e \<Rightarrow> Inl e
            | Inr lumas \<Rightarrow>
                if length lumas \<noteq> length active then Inr ([], st')
                else Inr (deliver active lumas, st')))"

section \<open>Notions for the statements\<close>

text \<open>
  The offsets into the pixel buffer that the two loops of \<^verbatim>\<open>sampleArea\<close> read, row by
  row, and the luma levels found there. An area is inside the buffer when every one of
  these offsets is; the stride is in range when no product \<^verbatim>\<open>row * stride\<close> of a row
  of the area overflows.
\<close>

definition rowOffsets :: "int \<Rightarrow> Rect \<Rightarrow> int \<Rightarrow> int list" where
  "rowOffsets stride ar row = map (\<lambda>column. row * stride + column) [left ar..right ar - 1]"

definition areaOffsets :: "int \<Rightarrow> Rect \<Rightarrow> int list" where
  "areaOffsets stride ar = concat (map (rowOffsets stride ar) [top_r ar..bottom ar - 1])"

definition areaInBuffer :: "32 word list \<Rightarrow> int \<Rightarrow> Rect \<Rightarrow> bool" where
  "areaInBuffer data stride ar \<longleftrightarrow>
     list_all (\<lambda>i. 0 \<le> i \<and> i < int (length data)) (areaOffsets stride ar)"

definition strideInRange :: "int \<Rightarrow> Rect \<Rightarrow> bool" where
  "strideInRange stride ar \<longleftrightarrow>
     list_all (\<lambda>row. in_int32 (row * stride)) [top_r ar..bottom ar - 1]"

definition areaLevels :: "(32 word \<Rightarrow> 8 word) \<Rightarrow> 32 word list \<Rightarrow> int \<Rightarrow> Rect \<Rightarrow> 8 word list" where
  "areaLevels lumaOf data stride ar = map (\<lambda>i. lumaOf (data ! nat i)) (areaOffsets stride ar)"

text \<open>
  The scan of lines 98 to 109 as a function of the list of levels alone: what
  \<open>scanRows\<close> computes once every read has succeeded (lemma \<open>scanRows_levels\<close>).
\<close>

fun scanLevels :: "int \<Rightarrow> 8 word list \<Rightarrow> int list \<Rightarrow> 8 word option \<times> int list" where
  "scanLevels m [] b = (None, b)"
| "scanLevels m (l # ls) b =
     (let b' = b[unat l := b ! unat l + 1]
      in if b' ! unat l > m then (Some l, b') else scanLevels m ls b')"

text \<open>The number of levels of a list that lie between \<open>lo\<close> and \<open>hi\<close>, both included.\<close>

definition countIn :: "nat \<Rightarrow> nat \<Rightarrow> 8 word list \<Rightarrow> int" where
  "countIn lo hi levels = int (length (filter (\<lambda>l. lo \<le> unat l \<and> unat l \<le> hi) levels))"

text \<open>
  The fallback as the specification words it: the smallest luma level whose cumulative
  count, from level 0 upward, exceeds the majority threshold \<open>m\<close>.
\<close>

definition specFallbackLevel :: "int \<Rightarrow> 8 word list \<Rightarrow> nat option" where
  "specFallbackLevel m levels = find (\<lambda>k. m < countIn 0 k levels) [0..<256]"

text \<open>
  The registry as \<^verbatim>\<open>addListener\<close> builds it: one entry per key, and the key of an entry
  is the channel identity of the listener of its descriptor.
\<close>

definition registryOk :: "(nat \<times> Descriptor) list \<Rightarrow> bool" where
  "registryOk m \<longleftrightarrow> distinct (map fst m) \<and> list_all (\<lambda>kv. fst kv = asBinder (listener (snd kv))) m"

text \<open>
  The values \<^verbatim>\<open>captureSample\<close> computes on its way: the snapshot \<^verbatim>\<open>descriptors\<close> of
  the registry, \<^verbatim>\<open>sampledArea\<close>, \<^verbatim>\<open>activeDescriptors\<close>, and the result of
  \<^verbatim>\<open>sampleBuffer\<close> (lemma \<open>captureSample_pass\<close>).
\<close>

definition snapshot :: "State \<Rightarrow> Descriptor list" where
  "snapshot st = map snd (mDescriptors st)"

definition passArea :: "(Rect list \<Rightarrow> Rect) \<Rightarrow> State \<Rightarrow> Rect" where
  "passArea regionBounds st = regionBounds (map area (snapshot st))"

definition passListeners ::
  "(Rect \<Rightarrow> Rect \<Rightarrow> bool) \<Rightarrow> (Rect list \<Rightarrow> Rect) \<Rightarrow> Capture \<Rightarrow> State \<Rightarrow> Listener set" where
  "passListeners intersect regionBounds env st =
     captureScreenCore intersect (snapshot st) (passArea regionBounds st) (traversals env)"

definition passActive ::
  "(Rect \<Rightarrow> Rect \<Rightarrow> bool) \<Rightarrow> (Rect list \<Rightarrow> Rect) \<Rightarrow> Capture \<Rightarrow> State \<Rightarrow> Descriptor list" where
  "passActive intersect regionBounds env st =
     activeDescriptors (passListeners intersect regionBounds env st) (snapshot st)"

definition passLumas ::
  "(32 word \<Rightarrow> 8 word) \<Rightarrow> (Rect \<Rightarrow> Rect \<Rightarrow> bool) \<Rightarrow> (Rect list \<Rightarrow> Rect) \<Rightarrow> Capture \<Rightarrow> State
     \<Rightarrow> error + real list" where
  "passLumas lumaOf intersect regionBounds env st =
     sampleBuffer lumaOf (locked env) (getStride env) (leftTop (passArea regionBounds st))
       (passActive intersect regionBounds env st)"

text \<open>
  The rectangles \<^verbatim>\<open>sampleBuffer\<close> hands to \<^verbatim>\<open>sampleArea\<close> in a pass (line 134): the
  areas of the active descriptors, each moved by the corner of the sampled area.
\<close>

definition passRects ::
  "(Rect \<Rightarrow> Rect \<Rightarrow> bool) \<Rightarrow> (Rect list \<Rightarrow> Rect) \<Rightarrow> Capture \<Rightarrow> State \<Rightarrow> Rect list" where
  "passRects intersect regionBounds env st =
     map (\<lambda>descriptor. rect_minus (area descriptor) (leftTop (passArea regionBounds st)))
       (passActive intersect regionBounds env st)"

text \<open>
  In a traversal all the content of a descriptor comes after its stop layer: no layer
  visited before the first visit of the stop layer of the descriptor intersects the area
  of the descriptor.
\<close>

fun contentAfterStop :: "(Rect \<Rightarrow> Rect \<Rightarrow> bool) \<Rightarrow> Descriptor \<Rightarrow> Layer list \<Rightarrow> bool" where
  "contentAfterStop intersect d [] = True"
| "contentAfterStop intersect d (layer # layers) =
     (if Some (layerId layer) = stopLayer d then True
      else \<not> intersect (transformed layer) (area d) \<and> contentAfterStop intersect d layers)"

text \<open>
  Modelled from the spec: \<^verbatim>\<open>Rect::intersect\<close> and \<^verbatim>\<open>Region::bounds\<close> are not among the
  sources. Two rectangles intersect when their common part is not empty, and the sampled
  area is the bounding rectangle of the areas of all descriptors. The functions of this
  file take both as parameters; these two definitions are the instances used on
  concrete inputs.
\<close>

definition intersects :: "Rect \<Rightarrow> Rect \<Rightarrow> bool" where
  "intersects a b \<longleftrightarrow>
     max (left a) (left b) < min (right a) (right b)
     \<and> max (top_r a) (top_r b) < min (bottom a) (bottom b)"

definition boundsOf :: "Rect list \<Rightarrow> Rect" where
  "boundsOf rs =
     fold (\<lambda>r b. \<lparr>left = min (left r) (left b), top_r = min (top_r r) (top_r b),
                    right = max (right r) (right b), bottom = max (bottom r) (bottom b)\<rparr>)
       (tl rs) (hd rs)"

subsection \<open>A concrete pass\<close>

text \<open>
  Two listeners registered through \<^verbatim>\<open>addListener\<close>: \<open>listenerA\<close> samples the rectangle
  from (0,0) to (2,2) and has no stop layer, \<open>listenerB\<close> samples the rectangle from
  (1,1) to (3,3) and has layer 9 as its stop layer. The traversal visits a layer over
  the corner from (0,0) to (1,1), then layer 9, then a layer over the whole sampled area.
  The buffer is 3 by 3 and uniformly of the grey value 64.
\<close>

definition listenerA :: Listener where
  "listenerA = \<lparr>iface = 1, asBinder = 11\<rparr>"

definition listenerB :: Listener where
  "listenerB = \<lparr>iface = 2, asBinder = 12\<rparr>"

definition descriptorA :: Descriptor where
  "descriptorA =
     \<lparr>area = \<lparr>left = 0, top_r = 0, right = 2, bottom = 2\<rparr>, stopLayer = None, listener = listenerA\<rparr>"

definition descriptorB :: Descriptor where
  "descriptorB =
     \<lparr>area = \<lparr>left = 1, top_r = 1, right = 3, bottom = 3\<rparr>, stopLayer = Some 9,
      listener = listenerB\<rparr>"

definition exampleState :: State where
  "exampleState =
     addListener \<lparr>left = 1, top_r = 1, right = 3, bottom = 3\<rparr> (Some \<lparr>owner = 9\<rparr>) listenerB
       (addListener \<lparr>left = 0, top_r = 0, right = 2, bottom = 2\<rparr> None listenerA
          \<lparr>mDescriptors = [], mSampleRequested = False, mRunning = True\<rparr>)"

definition cornerLayer :: Layer where
  "cornerLayer = \<lparr>layerId = 1, transformed = \<lparr>left = 0, top_r = 0, right = 1, bottom = 1\<rparr>\<rparr>"

definition stopLayer9 :: Layer where
  "stopLayer9 = \<lparr>layerId = 9, transformed = \<lparr>left = 0, top_r = 0, right = 3, bottom = 3\<rparr>\<rparr>"

definition backLayer :: Layer where
  "backLayer = \<lparr>layerId = 2, transformed = \<lparr>left = 0, top_r = 0, right = 3, bottom = 3\<rparr>\<rparr>"

definition exampleCapture :: Capture where
  "exampleCapture =
     \<lparr>traversals = [[cornerLayer, stopLayer9, backLayer]],
      locked = Some (replicate 9 0xFF404040),
      getStride = 3,
      whileUnlocked = (\<lambda>st. st)\<rparr>"

text \<open>
  A third listener registered with a rectangle of width 0, from (1,1) to (1,3), and a
  capture whose one traversal visits the layer over the whole sampled area.
\<close>

definition listenerC :: Listener where
  "listenerC = \<lparr>iface = 3, asBinder = 13\<rparr>"

definition descriptorC :: Descriptor where
  "descriptorC =
     \<lparr>area = \<lparr>left = 1, top_r = 1, right = 1, bottom = 3\<rparr>, stopLayer = None, listener = listenerC\<rparr>"

definition emptyAreaState :: State where
  "emptyAreaState =
     addListener \<lparr>left = 1, top_r = 1, right = 1, bottom = 3\<rparr> None listenerC exampleState"

definition backCapture :: Capture where
  "backCapture = exampleCapture\<lparr>traversals := [[backLayer]]\<rparr>"

section \<open>The luma of some pixels\<close>

lemmas f32_eval = f32_def f32down.simps f32up.simps roundEven_def round_def Let_def

lemma f32_constants:
  "f32 0.2126 = 891709 / 4194304"
  "f32 0.7152 = 11999065 / 16777216"
  "f32 0.0722 = 1211315 / 16777216"
  by (simp_all add: f32_eval)

lemma f32_zero_one: "f32 0 = 0" "f32 1 = 1" "f32 255 = 255"
  by (simp_all add: f32_eval)

text \<open>
  The rounding moves a number below \<open>2 ^ 24\<close> by at most one part in \<open>2 ^ 24\<close> of
  itself, and by \<open>2 ^ -150\<close> among the subnormal numbers. So no quotient of a level by
  255 is rounded to one half.
\<close>

lemma roundEven_near:
  "real_of_int (roundEven v) \<le> v + 1 / 2" "v - 1 / 2 \<le> real_of_int (roundEven v)"
proof -
  have a: "real_of_int \<lfloor>v\<rfloor> \<le> v" and b: "v < real_of_int \<lfloor>v\<rfloor> + 1"
    by linarith+
  show "real_of_int (roundEven v) \<le> v + 1 / 2"
    using a b by (simp add: roundEven_def Let_def; linarith)
  show "v - 1 / 2 \<le> real_of_int (roundEven v)"
    using a b by (simp add: roundEven_def Let_def; linarith)
qed

lemma round_near_scaled:
  fixes v e r :: real
  assumes "8388608 \<le> v" "0 \<le> e" "r \<le> v + 1 / 2" "v - 1 / 2 \<le> r"
  shows "r \<le> v * (1 + 1 / 16777216) + e \<and> v * (1 - 1 / 16777216) - e \<le> r"
  using assms by (simp add: algebra_simps)

lemma f32up_near:
  "0 \<le> v \<Longrightarrow>
   f32up fuel v \<le> v * (1 + 1 / 16777216) + 1 / 2 ^ Suc fuel
   \<and> v * (1 - 1 / 16777216) - 1 / 2 ^ Suc fuel \<le> f32up fuel v"
proof (induction fuel arbitrary: v)
  case 0
  have "f32up 0 v = of_int (roundEven v)"
    by (subst f32up.simps) simp
  then show ?case
    using roundEven_near[of v] 0 by simp
next
  case (Suc fuel)
  show ?case
  proof (cases "8388608 \<le> v")
    case True
    then have eq: "f32up (Suc fuel) v = of_int (roundEven v)"
      by (subst f32up.simps) simp
    show ?thesis
      unfolding eq by (rule round_near_scaled[OF True _ roundEven_near]) simp
  next
    case False
    then have eq: "f32up (Suc fuel) v = f32up fuel (2 * v) / 2"
      by (subst f32up.simps) simp
    have "0 \<le> 2 * v" using Suc.prems by simp
    from Suc.IH[OF this] show ?thesis
      unfolding eq by (simp add: field_simps)
  qed
qed

lemma f32_near:
  assumes "0 < v" "v < 16777216"
  shows "f32 v \<le> v * (1 + 1 / 16777216) + 1 / 16777216"
    and "v * (1 - 1 / 16777216) - 1 / 16777216 \<le> f32 v"
proof -
  have eq: "f32 v = f32up 149 v"
    using assms by (simp add: f32_def f32down.simps)
  have small: "(1::real) / 2 ^ Suc 149 \<le> 1 / 16777216" by simp
  have "0 \<le> v" using assms(1) by simp
  from f32up_near[OF this, of 149] small
  show "f32 v \<le> v * (1 + 1 / 16777216) + 1 / 16777216"
    and "v * (1 - 1 / 16777216) - 1 / 16777216 \<le> f32 v"
    unfolding eq by linarith+
qed

lemma f32_quotient_not_half:
  assumes "k < 256"
  shows "f32 (real k / 255) \<noteq> 1 / 2"
proof -
  let ?v = "real k / 255"
  consider "k = 0" | "0 < k" "k \<le> 127" | "128 \<le> k" by linarith
  then show ?thesis
  proof cases
    case 1
    then show ?thesis by (simp add: f32_def)
  next
    case 2
    then have v: "0 < ?v" "?v \<le> 127 / 255" by simp_all
    then have "?v < 16777216" by simp
    from f32_near(1)[OF v(1) this] v(2) have "f32 ?v < 1 / 2" by simp
    then show ?thesis by simp
  next
    case 3
    then have v: "128 / 255 \<le> ?v" "?v \<le> 1" using assms by simp_all
    then have "0 < ?v" "?v < 16777216" by simp_all
    from f32_near(2)[OF this] v have "1 / 2 < f32 ?v" by simp
    then show ?thesis by simp
  qed
qed

lemma f32_level_not_half: "f32 (real (unat (l :: 8 word)) / 255) \<noteq> 1 / 2"
  using unsigned_less[of l, where 'a = nat] by (intro f32_quotient_not_half) simp

lemma lumaLevel_black: "lumaLevel 0xFF000000 = 0"
  by (simp add: lumaLevel_def pixelLuma_def getLuma_def f32_eval)

lemma lumaLevel_white: "lumaLevel 0xFFFFFFFF = 255"
  by (simp add: lumaLevel_def pixelLuma_def getLuma_def f32_eval)

lemma lumaLevel_grey1: "lumaLevel 0xFF010101 = 1"
  by (simp add: lumaLevel_def pixelLuma_def getLuma_def f32_eval)

lemma lumaLevel_grey2: "lumaLevel 0xFF020202 = 2"
  by (simp add: lumaLevel_def pixelLuma_def getLuma_def f32_eval)

lemma lumaLevel_grey64: "lumaLevel 0xFF404040 = 64"
  by (simp add: lumaLevel_def pixelLuma_def getLuma_def f32_eval)

lemma pixelLuma_white: "pixelLuma 0xFFFFFFFF = 1"
  by (simp add: pixelLuma_def getLuma_def f32_eval)

text \<open>
  Red 13, green 163 and blue 113: the luma is one half in single precision, and the level
  is 128.
\<close>

lemma pixelLuma_half: "pixelLuma 0xFF71A30D = 1 / 2"
  by (simp add: pixelLuma_def getLuma_def f32_eval)

lemma lumaLevel_half: "lumaLevel 0xFF71A30D = 128"
  by (simp add: lumaLevel_def pixelLuma_def getLuma_def f32_eval)

text \<open>
  Red 160, green 119 and blue 116: over the reals the weighted sum is one half, in
  single precision it is the float just below, and the level is 127.
\<close>

lemma pixelLuma_below_half: "pixelLuma 0xFF7477A0 = 16777215 / 33554432"
  by (simp add: pixelLuma_def getLuma_def f32_eval)

lemma lumaLevel_below_half: "lumaLevel 0xFF7477A0 = 127"
  by (simp add: lumaLevel_def pixelLuma_def getLuma_def f32_eval)

section \<open>The sampler: the scan and the fallback in closed form\<close>

lemma histogramFallback_char:
  "length b = 256 \<Longrightarrow> k0 + n = 255 \<Longrightarrow>
   histogramFallback b m (sum_list (take k0 (drop 1 b))) k0 =
     (case find (\<lambda>k. m < sum_list (take k (drop 1 b))) [Suc k0..<256] of
        Some k \<Rightarrow> Inr k | None \<Rightarrow> Inl (BucketOutOfBounds 256))"
proof (induction n arbitrary: k0)
  case 0
  then show ?case
    by (subst histogramFallback.simps) simp
next
  case (Suc n)
  from Suc.prems have lt: "Suc k0 < 256" by simp
  have upt: "[Suc k0..<256] = Suc k0 # [Suc (Suc k0)..<256]"
    using lt by (simp add: upt_conv_Cons)
  have step: "sum_list (take (Suc k0) (drop 1 b)) = sum_list (take k0 (drop 1 b)) + b ! Suc k0"
    using Suc.prems lt by (simp add: take_Suc_conv_app_nth)
  have IH: "histogramFallback b m (sum_list (take (Suc k0) (drop 1 b))) (Suc k0) =
              (case find (\<lambda>k. m < sum_list (take k (drop 1 b))) [Suc (Suc k0)..<256] of
                 Some k \<Rightarrow> Inr k | None \<Rightarrow> Inl (BucketOutOfBounds 256))"
    using Suc.IH[of "Suc k0"] Suc.prems by simp
  show ?case
  proof (cases "m < sum_list (take (Suc k0) (drop 1 b))")
    case True
    have "histogramFallback b m (sum_list (take k0 (drop 1 b))) k0 = Inr (Suc k0)"
      using Suc.prems(1) lt True unfolding step
      by (subst histogramFallback.simps) (simp add: Let_def)
    then show ?thesis using True by (simp only: upt find.simps if_True option.case)
  next
    case False
    have "histogramFallback b m (sum_list (take k0 (drop 1 b))) k0 =
            histogramFallback b m (sum_list (take (Suc k0) (drop 1 b))) (Suc k0)"
      using Suc.prems(1) lt False unfolding step
      by (subst histogramFallback.simps) (simp add: Let_def)
    then show ?thesis using False IH by (simp only: upt find.simps if_False)
  qed
qed

lemma scanLevels_append:
  "scanLevels m (xs @ ys) b =
     (case scanLevels m xs b of (Some l, b') \<Rightarrow> (Some l, b') | (None, b') \<Rightarrow> scanLevels m ys b')"
  by (induction xs arbitrary: b) (simp_all add: Let_def)

lemma length_scanLevels: "scanLevels m ls b = (r, b') \<Longrightarrow> length b' = length b"
  by (induction ls arbitrary: b) (auto simp: Let_def split: if_splits)

lemma scanColumns_levels:
  "list_all (\<lambda>c. 0 \<le> rowBase + c \<and> rowBase + c < int (length data)) [column..right ar - 1] \<Longrightarrow>
   scanColumns lumaOf data rowBase ar m column b =
     Inr (scanLevels m (map (\<lambda>c. lumaOf (data ! nat (rowBase + c))) [column..right ar - 1]) b)"
proof (induction lumaOf data rowBase ar m column b rule: scanColumns.induct)
  case (1 lumaOf data rowBase ar m column b)
  show ?case
  proof (cases "column < right ar")
    case False
    then show ?thesis by (subst scanColumns.simps) simp
  next
    case True
    then have upto: "[column..right ar - 1] = column # [column + 1..right ar - 1]"
      by (simp add: upto_rec1)
    from "1.prems" upto have inb: "0 \<le> rowBase + column" "rowBase + column < int (length data)"
      and rest: "list_all (\<lambda>c. 0 \<le> rowBase + c \<and> rowBase + c < int (length data))
                   [column + 1..right ar - 1]"
      by simp_all
    have rd: "readPixel data (rowBase + column) = Inr (data ! nat (rowBase + column))"
      using inb by (simp add: readPixel_def)
    define l where "l = lumaOf (data ! nat (rowBase + column))"
    define b' where "b' = b[unat l := b ! unat l + 1]"
    show ?thesis
    proof (cases "b' ! unat l > m")
      case exit: True
      then show ?thesis
        using True rd unfolding upto
        by (subst scanColumns.simps) (simp add: Let_def l_def b'_def)
    next
      case noexit: False
      have "scanColumns lumaOf data rowBase ar m (column + 1) b' =
              Inr (scanLevels m (map (\<lambda>c. lumaOf (data ! nat (rowBase + c)))
                     [column + 1..right ar - 1]) b')"
        using "1.IH"[OF True rd l_def[symmetric, THEN sym] b'_def[symmetric, THEN sym]] noexit rest
        by (simp add: l_def b'_def)
      then show ?thesis
        using True rd noexit unfolding upto
        by (subst scanColumns.simps) (simp add: Let_def l_def b'_def)
    qed
  qed
qed


lemma scanRows_levels:
  "list_all (\<lambda>r. in_int32 (r * stride)) [row..bottom ar - 1] \<Longrightarrow>
   list_all (\<lambda>i. 0 \<le> i \<and> i < int (length data))
     (concat (map (rowOffsets stride ar) [row..bottom ar - 1])) \<Longrightarrow>
   scanRows lumaOf data stride ar m row b =
     Inr (scanLevels m (map (\<lambda>i. lumaOf (data ! nat i))
            (concat (map (rowOffsets stride ar) [row..bottom ar - 1]))) b)"
proof (induction "nat (bottom ar - row)" arbitrary: row b)
  case 0
  then have "\<not> row < bottom ar" by simp
  then show ?case by (subst scanRows.simps) simp
next
  case (Suc n)
  then have lt: "row < bottom ar" by linarith
  then have upto: "[row..bottom ar - 1] = row # [row + 1..bottom ar - 1]"
    by (simp add: upto_rec1)
  from Suc.prems(1) upto have ok: "in_int32 (row * stride)"
    and ok': "list_all (\<lambda>r. in_int32 (r * stride)) [row + 1..bottom ar - 1]"
    by simp_all
  from Suc.prems(2) upto
  have inrow: "list_all (\<lambda>i. 0 \<le> i \<and> i < int (length data)) (rowOffsets stride ar row)"
    and inrest: "list_all (\<lambda>i. 0 \<le> i \<and> i < int (length data))
                   (concat (map (rowOffsets stride ar) [row + 1..bottom ar - 1]))"
    by simp_all
  have cols: "scanColumns lumaOf data (row * stride) ar m (left ar) b =
                Inr (scanLevels m (map (\<lambda>i. lumaOf (data ! nat i)) (rowOffsets stride ar row)) b)"
    using inrow scanColumns_levels[of "row * stride" data "left ar" ar lumaOf m b]
    by (simp add: rowOffsets_def list_all_iff comp_def)
  have IH: "\<And>b'. scanRows lumaOf data stride ar m (row + 1) b' =
     Inr (scanLevels m (map (\<lambda>i. lumaOf (data ! nat i))
            (concat (map (rowOffsets stride ar) [row + 1..bottom ar - 1]))) b')"
    using Suc.hyps(1)[of "row + 1"] Suc.hyps(2) ok' inrest by simp
  obtain r b1 where res:
    "scanLevels m (map (\<lambda>i. lumaOf (data ! nat i)) (rowOffsets stride ar row)) b = (r, b1)"
    by (cases "scanLevels m (map (\<lambda>i. lumaOf (data ! nat i)) (rowOffsets stride ar row)) b")
  show ?case
  proof (cases r)
    case None
    then show ?thesis
      using lt ok cols res IH[of b1] unfolding upto
      by (subst scanRows.simps) (simp add: scanLevels_append)
  next
    case (Some l)
    then show ?thesis
      using lt ok cols res unfolding upto
      by (subst scanRows.simps) (simp add: scanLevels_append)
  qed
qed

lemma sampleArea_levels:
  assumes "in_int32 (getWidth ar)" "in_int32 (getHeight ar)"
    and "in_int32 (getWidth ar * getHeight ar)"
    and "strideInRange stride ar" and "areaInBuffer data stride ar"
  shows "sampleArea lumaOf data stride ar =
     (case scanLevels ((getWidth ar * getHeight ar) sdiv 2) (areaLevels lumaOf data stride ar)
             (replicate 256 0) of
        (Some l, b') \<Rightarrow> Inr (real (unat l) / 255)
      | (None, b') \<Rightarrow>
          (case find (\<lambda>k. (getWidth ar * getHeight ar) sdiv 2 < sum_list (take k (drop 1 b')))
                  [1..<256] of
             Some k \<Rightarrow> Inr (real k / 255)
           | None \<Rightarrow> Inl (BucketOutOfBounds 256)))"
proof -
  let ?m = "(getWidth ar * getHeight ar) sdiv 2"
  have rows: "scanRows lumaOf data stride ar ?m (top_r ar) (replicate 256 0) =
                Inr (scanLevels ?m (areaLevels lumaOf data stride ar) (replicate 256 0))"
    using assms(4,5) scanRows_levels[of stride "top_r ar" ar data lumaOf ?m "replicate 256 0"]
    by (simp add: strideInRange_def areaInBuffer_def areaOffsets_def areaLevels_def)
  obtain r b' where res:
    "scanLevels ?m (areaLevels lumaOf data stride ar) (replicate 256 0) = (r, b')"
    by (cases "scanLevels ?m (areaLevels lumaOf data stride ar) (replicate 256 0)")
  then have len: "length b' = 256" using length_scanLevels by fastforce
  show ?thesis
  proof (cases r)
    case (Some l)
    then show ?thesis using assms(1-3) rows res by (simp add: sampleArea_def)
  next
    case None
    have "histogramFallback b' ?m 0 0 =
            (case find (\<lambda>k. ?m < sum_list (take k (drop 1 b'))) [Suc 0..<256] of
               Some k \<Rightarrow> Inr k | None \<Rightarrow> Inl (BucketOutOfBounds 256))"
      using histogramFallback_char[OF len, of 0 255 ?m] by simp
    then show ?thesis using None assms(1-3) rows res
      by (simp add: sampleArea_def split: option.splits)
  qed
qed

lemma countIn_Nil [simp]: "countIn lo hi [] = 0"
  by (simp add: countIn_def)

lemma countIn_Cons:
  "countIn lo hi (l # ls) = (if lo \<le> unat l \<and> unat l \<le> hi then 1 else 0) + countIn lo hi ls"
  by (simp add: countIn_def)

lemma countIn_nonneg: "0 \<le> countIn lo hi ls"
  by (simp add: countIn_def)

lemma countIn_split: "lo \<le> Suc k \<Longrightarrow> countIn lo (Suc k) ls = countIn lo k ls + countIn (Suc k) (Suc k) ls"
  by (induction ls) (auto simp: countIn_Cons)

lemma countIn_empty_range: "hi < lo \<Longrightarrow> countIn lo hi ls = 0"
  by (induction ls) (auto simp: countIn_Cons)

lemma countIn_mono: "hi \<le> hi' \<Longrightarrow> countIn lo hi ls \<le> countIn lo hi' ls"
  by (induction ls) (auto simp: countIn_Cons)

lemma countIn_le_length: "countIn lo hi ls \<le> int (length ls)"
  by (simp add: countIn_def)

lemma countIn_disjoint:
  "j \<noteq> k \<Longrightarrow> countIn j j ls + countIn k k ls \<le> int (length ls)"
  by (induction ls) (auto simp: countIn_Cons)

lemma unat_level_less: "unat (l :: 8 word) < 256"
  using unsigned_less[of l, where 'a = nat] by simp

lemma countIn_all: "countIn 0 255 ls = int (length ls)"
proof -
  have "\<And>l :: 8 word. unat l \<le> 255"
    using unat_level_less by (simp add: less_Suc_eq_le[symmetric])
  then show ?thesis by (simp add: countIn_def)
qed

lemma countIn_zero_split: "countIn 0 255 ls = countIn 0 0 ls + countIn 1 255 ls"
  by (induction ls) (auto simp: countIn_Cons)


lemma scanLevels_None_nth:
  "scanLevels m ls b = (None, b') \<Longrightarrow> length b = 256 \<Longrightarrow> k < 256 \<Longrightarrow>
   b' ! k = b ! k + countIn k k ls"
proof (induction ls arbitrary: b)
  case Nil
  then show ?case by simp
next
  case (Cons x xs)
  let ?b1 = "b[unat x := b ! unat x + 1]"
  from Cons.prems(1) have rest: "scanLevels m xs ?b1 = (None, b')"
    by (simp add: Let_def split: if_splits)
  have "b' ! k = ?b1 ! k + countIn k k xs"
    using Cons.IH[OF rest] Cons.prems(2,3) by simp
  moreover have "?b1 ! k = b ! k + (if k \<le> unat x \<and> unat x \<le> k then 1 else 0)"
    using Cons.prems(2,3) unat_level_less[of x] by (auto simp: nth_list_update)
  ultimately show ?case by (simp add: countIn_Cons)
qed


text \<open>A level leaves the scan early only with a count above the threshold.\<close>

lemma scanLevels_Some_count:
  "scanLevels m ls b = (Some l, b') \<Longrightarrow> length b = 256 \<Longrightarrow>
   m < b ! unat l + countIn (unat l) (unat l) ls"
proof (induction ls arbitrary: b)
  case Nil
  then show ?case by simp
next
  case (Cons x xs)
  let ?b1 = "b[unat x := b ! unat x + 1]"
  have upd: "?b1 ! unat l = b ! unat l + (if unat l \<le> unat x \<and> unat x \<le> unat l then 1 else 0)"
    using Cons.prems(2) unat_level_less[of x] unat_level_less[of l] by (auto simp: nth_list_update)
  show ?case
  proof (cases "m < ?b1 ! unat x")
    case True
    with Cons.prems(1) have "l = x" by (simp add: Let_def)
    with True upd show ?thesis
      using countIn_nonneg[of "unat x" "unat x" xs] by (simp add: countIn_Cons)
  next
    case False
    with Cons.prems(1) have rest: "scanLevels m xs ?b1 = (Some l, b')"
      by (simp add: Let_def)
    have "m < ?b1 ! unat l + countIn (unat l) (unat l) xs"
      using Cons.IH[OF rest] Cons.prems(2) by simp
    with upd show ?thesis by (simp add: countIn_Cons)
  qed
qed


text \<open>A level whose count passes the threshold makes the scan leave early.\<close>

lemma scanLevels_exits:
  "length b = 256 \<Longrightarrow> \<forall>k<256. b ! k \<le> m \<Longrightarrow>
   m < b ! unat (l :: 8 word) + countIn (unat l) (unat l) ls \<Longrightarrow>
   \<exists>l' b'. scanLevels m ls b = (Some l', b')"
proof (induction ls arbitrary: b)
  case Nil
  from Nil.prems(2) unat_level_less[of l] have "b ! unat l \<le> m" by blast
  with Nil.prems(3) show ?case by simp
next
  case (Cons x xs)
  let ?b1 = "b[unat x := b ! unat x + 1]"
  have upd: "?b1 ! unat l = b ! unat l + (if unat l \<le> unat x \<and> unat x \<le> unat l then 1 else 0)"
    using Cons.prems(1) unat_level_less[of x] unat_level_less[of l] by (auto simp: nth_list_update)
  show ?case
  proof (cases "m < ?b1 ! unat x")
    case True
    then show ?thesis by (simp add: Let_def)
  next
    case False
    have bound: "\<forall>k<256. ?b1 ! k \<le> m"
    proof (intro allI impI)
      fix k :: nat assume "k < 256"
      then show "?b1 ! k \<le> m"
        using False Cons.prems(1,2) by (cases "k = unat x") (auto simp: nth_list_update)
    qed
    have "m < ?b1 ! unat l + countIn (unat l) (unat l) xs"
      using Cons.prems(3) upd by (simp add: countIn_Cons)
    moreover have "length ?b1 = 256" using Cons.prems(1) by simp
    ultimately obtain l' b' where "scanLevels m xs ?b1 = (Some l', b')"
      using Cons.IH[of ?b1] bound by blast
    with False show ?thesis
      by (simp add: Let_def)
  qed
qed

lemma sum_take_drop1:
  "length b' = 256 \<Longrightarrow> \<forall>j<256. b' ! j = countIn j j ls \<Longrightarrow> k < 256 \<Longrightarrow>
   sum_list (take k (drop 1 b')) = countIn 1 k ls"
proof (induction k)
  case 0
  then show ?case by (simp add: countIn_empty_range)
next
  case (Suc k)
  then have "sum_list (take (Suc k) (drop 1 b')) = sum_list (take k (drop 1 b')) + b' ! Suc k"
    by (simp add: take_Suc_conv_app_nth)
  moreover have "sum_list (take k (drop 1 b')) = countIn 1 k ls"
    using Suc by simp
  moreover have "b' ! Suc k = countIn (Suc k) (Suc k) ls"
    using Suc.prems by simp
  ultimately show ?case using countIn_split[of 1 k ls] by simp
qed


lemma scanLevels_Some_mem: "scanLevels m ls b = (Some l, b') \<Longrightarrow> l \<in> set ls"
  by (induction ls arbitrary: b) (auto simp: Let_def split: if_splits)

text \<open>Without a level above the threshold the scan runs to its end.\<close>

lemma scanLevels_no_majority:
  assumes "list_all (\<lambda>l. countIn (unat l) (unat l) ls \<le> m) ls"
  shows "\<exists>b'. scanLevels m ls (replicate 256 0) = (None, b')"
proof (cases "scanLevels m ls (replicate 256 0)")
  case (Pair r b')
  show ?thesis
  proof (cases r)
    case None
    with Pair show ?thesis by simp
  next
    case (Some l)
    with Pair have "m < replicate 256 0 ! unat l + countIn (unat l) (unat l) ls"
      using scanLevels_Some_count[of m ls "replicate 256 0" l b'] by simp
    then have "m < countIn (unat l) (unat l) ls"
      using unat_level_less[of l] by simp
    moreover have "l \<in> set ls" using Pair Some scanLevels_Some_mem by fastforce
    ultimately show ?thesis using assms by (auto simp: list_all_iff)
  qed
qed

lemma length_rowOffsets: "length (rowOffsets stride ar row) = nat (getWidth ar)"
  by (simp add: rowOffsets_def getWidth_def)

lemma length_concat_const:
  "(\<And>x. x \<in> set xs \<Longrightarrow> length (f x) = c) \<Longrightarrow> length (concat (map f xs)) = length xs * c"
  by (induction xs) simp_all

lemma length_areaOffsets: "length (areaOffsets stride ar) = nat (getHeight ar) * nat (getWidth ar)"
  unfolding areaOffsets_def
  by (subst length_concat_const[where c = "nat (getWidth ar)"])
     (simp_all add: length_rowOffsets getHeight_def)

lemma length_areaLevels:
  "length (areaLevels lumaOf data stride ar) = nat (getHeight ar) * nat (getWidth ar)"
  by (simp add: areaLevels_def length_areaOffsets)

lemma sdiv_two_nonneg: "0 \<le> (a::int) \<Longrightarrow> a sdiv 2 = a div 2"
  by (simp add: signed_divide_int_def sgn_if)

text \<open>
  The closed form of \<^verbatim>\<open>sampleArea\<close> on an input without undefined behaviour before the
  fallback: the cumulative count the fallback compares at \<open>k\<close> is the number of pixels
  whose level is between 1 and \<open>k\<close>.
\<close>

lemma sampleArea_counts:
  assumes "in_int32 (getWidth ar)" "in_int32 (getHeight ar)"
    and "in_int32 (getWidth ar * getHeight ar)"
    and "strideInRange stride ar" and "areaInBuffer data stride ar"
  shows "sampleArea lumaOf data stride ar =
     (case scanLevels ((getWidth ar * getHeight ar) sdiv 2) (areaLevels lumaOf data stride ar)
             (replicate 256 0) of
        (Some l, b') \<Rightarrow> Inr (real (unat l) / 255)
      | (None, b') \<Rightarrow>
          (case find (\<lambda>k. (getWidth ar * getHeight ar) sdiv 2
                             < countIn 1 k (areaLevels lumaOf data stride ar)) [1..<256] of
             Some k \<Rightarrow> Inr (real k / 255)
           | None \<Rightarrow> Inl (BucketOutOfBounds 256)))"
proof -
  let ?m = "(getWidth ar * getHeight ar) sdiv 2"
  let ?ls = "areaLevels lumaOf data stride ar"
  obtain r b' where res: "scanLevels ?m ?ls (replicate 256 0) = (r, b')"
    by (cases "scanLevels ?m ?ls (replicate 256 0)")
  show ?thesis
  proof (cases r)
    case (Some l)
    then show ?thesis using res sampleArea_levels[OF assms, of lumaOf] by simp
  next
    case None
    have len: "length b' = 256" using res length_scanLevels by fastforce
    have nth: "\<forall>j<256. b' ! j = countIn j j ?ls"
      using scanLevels_None_nth[of ?m ?ls "replicate 256 0" b'] res None by simp
    have "find (\<lambda>k. ?m < sum_list (take k (drop 1 b'))) [1..<256] =
          find (\<lambda>k. ?m < countIn 1 k ?ls) [1..<256]"
      by (rule find_cong) (use sum_take_drop1[OF len nth] in auto)
    then show ?thesis using res None sampleArea_levels[OF assms, of lumaOf] by simp
  qed
qed

lemma countIn_sub: "lo \<le> lo' \<Longrightarrow> hi' \<le> hi \<Longrightarrow> countIn lo' hi' ls \<le> countIn lo hi ls"
  by (induction ls) (auto simp: countIn_Cons)

lemma unat_level_le: "unat (l :: 8 word) \<le> 255"
  using unat_level_less[of l] by simp

text \<open>
  When neither level 0 nor the levels 1 to 255 together hold more pixels than the
  threshold, the scan finds no majority, the fallback never passes the threshold on the
  buckets 1 to 255, and it reads \<^verbatim>\<open>brightnessBuckets[256]\<close>.
\<close>

lemma sampleArea_reads_past_end:
  assumes wf: "in_int32 (getWidth ar)" "in_int32 (getHeight ar)"
      "in_int32 (getWidth ar * getHeight ar)"
      "strideInRange stride ar" "areaInBuffer data stride ar"
    and zero: "countIn 0 0 (areaLevels lumaOf data stride ar) \<le> (getWidth ar * getHeight ar) sdiv 2"
    and rest: "countIn 1 255 (areaLevels lumaOf data stride ar) \<le> (getWidth ar * getHeight ar) sdiv 2"
  shows "sampleArea lumaOf data stride ar = Inl (BucketOutOfBounds 256)"
proof -
  let ?m = "(getWidth ar * getHeight ar) sdiv 2"
  let ?ls = "areaLevels lumaOf data stride ar"
  have each: "countIn (unat l) (unat l) ?ls \<le> ?m" for l :: "8 word"
  proof (cases "unat l = 0")
    case True
    with zero show ?thesis by simp
  next
    case False
    then have "countIn (unat l) (unat l) ?ls \<le> countIn 1 255 ?ls"
      using unat_level_le[of l] by (intro countIn_sub) simp_all
    with rest show ?thesis by simp
  qed
  then have "list_all (\<lambda>l. countIn (unat l) (unat l) ?ls \<le> ?m) ?ls"
    by (simp add: list_all_iff)
  then obtain b' where scan: "scanLevels ?m ?ls (replicate 256 0) = (None, b')"
    using scanLevels_no_majority by blast
  have "\<not> ?m < countIn 1 k ?ls" if "k < 256" for k
    using countIn_mono[of k 255 1 ?ls] rest that by simp
  then have "find (\<lambda>k. ?m < countIn 1 k ?ls) [1..<256] = None"
    by (simp add: find_None_iff)
  with scan show ?thesis
    using sampleArea_counts[OF wf, of lumaOf] by simp
qed

lemma areaOffsets_zero_area: "getWidth ar * getHeight ar = 0 \<Longrightarrow> areaOffsets stride ar = []"
  using length_areaOffsets[of stride ar] by auto

text \<open>
  On a rectangle whose width or height is zero the scan visits no pixel, every bucket
  stays 0 and the threshold is 0.
\<close>

lemma sampleArea_zero_area:
  assumes "getWidth ar * getHeight ar = 0"
    and "in_int32 (getWidth ar)" and "in_int32 (getHeight ar)"
    and "strideInRange stride ar"
  shows "sampleArea lumaOf data stride ar = Inl (BucketOutOfBounds 256)"
proof -
  have off: "areaOffsets stride ar = []"
    using assms(1) by (rule areaOffsets_zero_area)
  have prod: "in_int32 (getWidth ar * getHeight ar)"
    unfolding assms(1) by (simp add: in_int32_def)
  have inb: "areaInBuffer data stride ar"
    by (simp add: areaInBuffer_def off)
  have lv: "areaLevels lumaOf data stride ar = []"
    by (simp add: areaLevels_def off)
  have m: "(getWidth ar * getHeight ar) sdiv 2 = 0"
    unfolding assms(1) by simp
  show ?thesis
    by (rule sampleArea_reads_past_end[OF assms(2,3) prod assms(4) inb]) (simp_all only: lv m countIn_Nil)
qed

subsection \<open>The fallback loop\<close>

lemma find_first_hit:
  assumes "i \<le> j" "j < n" "P j" "\<forall>k. i \<le> k \<and> k < j \<longrightarrow> \<not> P k"
  shows "find P [i..<n] = Some j"
proof -
  have "j - i < length [i..<n]" using assms(1,2) by simp
  moreover have "[i..<n] ! (j - i) = j" using assms(1,2) by simp
  moreover have "\<forall>k<j - i. \<not> P ([i..<n] ! k)" using assms(1,2,4) by simp
  ultimately show ?thesis using assms(3) unfolding find_Some_iff
    by (intro exI[of _ "j - i"]) simp
qed

lemma five_pixel_row:
  assumes "lumaOf p0 = 0" and "lumaOf p1 = 1" and "lumaOf p2 = 2"
  shows "areaLevels lumaOf [p0, p1, p1, p2, p2] 5 \<lparr>left = 0, top_r = 0, right = 5, bottom = 1\<rparr>
           = [0, 1, 1, 2, 2]"
  using assms by (simp add: areaLevels_def areaOffsets_def rowOffsets_def upto_rec1)

lemma two_pixel_row:
  assumes "lumaOf p0 = 0" and "lumaOf p2 = 2"
  shows "areaLevels lumaOf [p0, p2] 2 \<lparr>left = 0, top_r = 0, right = 2, bottom = 1\<rparr> = [0, 2]"
  using assms by (simp add: areaLevels_def areaOffsets_def rowOffsets_def upto_rec1)

text \<open>
  Claim C1 asks that the fallback accumulates the buckets from level 0 upward, indexes
  the array at 0 to 255 only, and returns the smallest level whose cumulative count
  exceeds the threshold. The loop of lines 113 to 116 increments \<^verbatim>\<open>bucket\<close> in its
  header before the body indexes the array, so bucket 0 is never added and the last
  index read is 256. Two inputs show both effects, for every discretisation that sends
  the three pixel values to the levels 0, 1 and 2. On a row of five pixels with the levels
  0, 1, 1, 2, 2 (threshold 2) the code returns level 2, where the cumulative count from
  level 0 upward first exceeds 2 at level 1. On a row of two pixels with the levels 0 and
  2 (threshold 1) the specified level is 2, and the code reads
  \<^verbatim>\<open>brightnessBuckets[256]\<close>.
\<close>

theorem fallback_skips_level_zero:
  assumes "lumaOf p0 = 0" and "lumaOf p1 = 1" and "lumaOf p2 = 2"
  shows "sampleArea lumaOf [p0, p1, p1, p2, p2] 5 \<lparr>left = 0, top_r = 0, right = 5, bottom = 1\<rparr>
           = Inr (2 / 255)
       \<and> specFallbackLevel 2
           (areaLevels lumaOf [p0, p1, p1, p2, p2] 5 \<lparr>left = 0, top_r = 0, right = 5, bottom = 1\<rparr>)
           = Some 1
       \<and> sampleArea lumaOf [p0, p2] 2 \<lparr>left = 0, top_r = 0, right = 2, bottom = 1\<rparr>
           = Inl (BucketOutOfBounds 256)
       \<and> specFallbackLevel 1
           (areaLevels lumaOf [p0, p2] 2 \<lparr>left = 0, top_r = 0, right = 2, bottom = 1\<rparr>)
           = Some 2"
proof -
  let ?r5 = "\<lparr>left = 0, top_r = 0, right = 5, bottom = 1\<rparr>"
  let ?r2 = "\<lparr>left = 0, top_r = 0, right = 2, bottom = 1\<rparr>"
  note l5 = five_pixel_row[OF assms]
  note l2 = two_pixel_row[OF assms(1,3)]
  have wf5: "in_int32 (getWidth ?r5)" "in_int32 (getHeight ?r5)"
      "in_int32 (getWidth ?r5 * getHeight ?r5)" "strideInRange 5 ?r5"
      "areaInBuffer [p0, p1, p1, p2, p2] 5 ?r5"
    by (simp_all add: getWidth_def getHeight_def in_int32_def strideInRange_def
          areaInBuffer_def areaOffsets_def rowOffsets_def upto_rec1)
  have wf2: "in_int32 (getWidth ?r2)" "in_int32 (getHeight ?r2)"
      "in_int32 (getWidth ?r2 * getHeight ?r2)" "strideInRange 2 ?r2"
      "areaInBuffer [p0, p2] 2 ?r2"
    by (simp_all add: getWidth_def getHeight_def in_int32_def strideInRange_def
          areaInBuffer_def areaOffsets_def rowOffsets_def upto_rec1)
  have m5: "(getWidth ?r5 * getHeight ?r5) sdiv 2 = 2"
    by (simp add: getWidth_def getHeight_def signed_divide_int_def)
  have m2: "(getWidth ?r2 * getHeight ?r2) sdiv 2 = 1"
    by (simp add: getWidth_def getHeight_def signed_divide_int_def)
  have "list_all (\<lambda>l. countIn (unat l) (unat l) [0, 1, 1, 2, 2] \<le> 2) [0, 1, 1, 2, 2 :: 8 word]"
    by (simp add: countIn_Cons)
  then obtain b' where scan5: "scanLevels 2 [0, 1, 1, 2, 2] (replicate 256 0) = (None, b')"
    using scanLevels_no_majority by blast
  have code5: "find (\<lambda>k. 2 < countIn 1 k [0, 1, 1, 2, 2]) [1..<256] = Some 2"
    by (rule find_first_hit) (auto simp: countIn_Cons)
  have a: "sampleArea lumaOf [p0, p1, p1, p2, p2] 5 ?r5 = Inr (2 / 255)"
    using sampleArea_counts[OF wf5, of lumaOf] scan5 code5 by (simp add: l5 m5)
  have b: "specFallbackLevel 2 (areaLevels lumaOf [p0, p1, p1, p2, p2] 5 ?r5) = Some 1"
    unfolding specFallbackLevel_def l5
    by (rule find_first_hit) (auto simp: countIn_Cons)
  have c: "sampleArea lumaOf [p0, p2] 2 ?r2 = Inl (BucketOutOfBounds 256)"
    by (rule sampleArea_reads_past_end[OF wf2]) (simp_all add: l2 m2 countIn_Cons)
  have d: "specFallbackLevel 1 (areaLevels lumaOf [p0, p2] 2 ?r2) = Some 2"
    unfolding specFallbackLevel_def l2
    by (rule find_first_hit) (auto simp: countIn_Cons)
  from a b c d show ?thesis by blast
qed

theorem fallback_skips_level_zero_witness:
  "lumaLevel 0xFF000000 = 0 \<and> lumaLevel 0xFF010101 = 1 \<and> lumaLevel 0xFF020202 = 2
   \<and> sampleArea lumaLevel [0xFF000000, 0xFF010101, 0xFF010101, 0xFF020202, 0xFF020202] 5
         \<lparr>left = 0, top_r = 0, right = 5, bottom = 1\<rparr> = Inr (2 / 255)
   \<and> specFallbackLevel 2
         (areaLevels lumaLevel [0xFF000000, 0xFF010101, 0xFF010101, 0xFF020202, 0xFF020202] 5
            \<lparr>left = 0, top_r = 0, right = 5, bottom = 1\<rparr>) = Some 1
   \<and> sampleArea lumaLevel [0xFF000000, 0xFF020202] 2
         \<lparr>left = 0, top_r = 0, right = 2, bottom = 1\<rparr> = Inl (BucketOutOfBounds 256)
   \<and> specFallbackLevel 1
         (areaLevels lumaLevel [0xFF000000, 0xFF020202] 2
            \<lparr>left = 0, top_r = 0, right = 2, bottom = 1\<rparr>) = Some 2"
proof -
  have p0: "lumaLevel 0xFF000000 = 0"
    by (rule lumaLevel_black)
  have p1: "lumaLevel 0xFF010101 = 1"
    by (rule lumaLevel_grey1)
  have p2: "lumaLevel 0xFF020202 = 2"
    by (rule lumaLevel_grey2)
  from fallback_skips_level_zero[OF p0 p1 p2] p0 p1 p2 show ?thesis by blast
qed

subsection \<open>The range of the result\<close>

lemma int_length_areaLevels:
  "0 \<le> getWidth ar \<Longrightarrow> 0 \<le> getHeight ar \<Longrightarrow>
   int (length (areaLevels lumaOf data stride ar)) = getWidth ar * getHeight ar"
  by (simp add: length_areaLevels)

lemma histogramFallback_bound:
  "histogramFallback b m acc k = Inr r \<Longrightarrow> k < length b \<Longrightarrow> r < length b"
proof (induction "length b - k" arbitrary: k acc)
  case 0
  then show ?case by simp
next
  case (Suc n)
  show ?case
  proof (cases "Suc k < length b")
    case False
    with Suc.prems show ?thesis
      by (subst (asm) histogramFallback.simps) (simp add: Let_def)
  next
    case True
    show ?thesis
    proof (cases "m < acc + b ! Suc k")
      case exit: True
      with Suc.prems True show ?thesis
        by (subst (asm) histogramFallback.simps) (simp add: Let_def)
    next
      case False
      with Suc.prems True
      have "histogramFallback b m (acc + b ! Suc k) (Suc k) = Inr r"
        by (subst (asm) histogramFallback.simps) (simp add: Let_def)
      moreover have "n = length b - Suc k" using Suc.hyps(2) by simp
      ultimately show ?thesis using Suc.hyps(1) True by blast
    qed
  qed
qed

lemma scanColumns_length:
  "scanColumns lumaOf data rowBase ar m column b = Inr (r, b') \<Longrightarrow> length b' = length b"
proof (induction "nat (right ar - column)" arbitrary: column b)
  case 0
  then have "\<not> column < right ar" by simp
  with "0.prems" show ?case by (subst (asm) scanColumns.simps) simp
next
  case (Suc n)
  then have lt: "column < right ar" by linarith
  show ?case
  proof (cases "readPixel data (rowBase + column)")
    case (Inl e)
    with Suc.prems lt show ?thesis by (subst (asm) scanColumns.simps) simp
  next
    case (Inr pixel)
    let ?b1 = "b[unat (lumaOf pixel) := b ! unat (lumaOf pixel) + 1]"
    show ?thesis
    proof (cases "m < ?b1 ! unat (lumaOf pixel)")
      case True
      with Suc.prems lt Inr show ?thesis
        by (subst (asm) scanColumns.simps) (auto simp: Let_def)
    next
      case False
      with Suc.prems lt Inr
      have "scanColumns lumaOf data rowBase ar m (column + 1) ?b1 = Inr (r, b')"
        by (subst (asm) scanColumns.simps) (simp add: Let_def)
      moreover have "n = nat (right ar - (column + 1))" using Suc.hyps(2) by simp
      ultimately have "length b' = length ?b1" using Suc.hyps(1) by blast
      then show ?thesis by simp
    qed
  qed
qed

lemma scanRows_length:
  "scanRows lumaOf data stride ar m row b = Inr (r, b') \<Longrightarrow> length b' = length b"
proof (induction "nat (bottom ar - row)" arbitrary: row b)
  case 0
  then have "\<not> row < bottom ar" by simp
  with "0.prems" show ?case by (subst (asm) scanRows.simps) simp
next
  case (Suc n)
  then have lt: "row < bottom ar" by linarith
  show ?case
  proof (cases "in_int32 (row * stride)")
    case False
    with Suc.prems lt show ?thesis by (subst (asm) scanRows.simps) simp
  next
    case True
    show ?thesis
    proof (cases "scanColumns lumaOf data (row * stride) ar m (left ar) b")
      case (Inl e)
      with Suc.prems lt True show ?thesis by (subst (asm) scanRows.simps) simp
    next
      case (Inr res)
      obtain r1 b1 where res: "res = (r1, b1)" by (cases res)
      have len1: "length b1 = length b"
        using Inr res scanColumns_length by blast
      show ?thesis
      proof (cases r1)
        case (Some l)
        with Suc.prems lt True Inr res len1 show ?thesis
          by (subst (asm) scanRows.simps) auto
      next
        case None
        with Suc.prems lt True Inr res
        have "scanRows lumaOf data stride ar m (row + 1) b1 = Inr (r, b')"
          by (subst (asm) scanRows.simps) simp
        moreover have "n = nat (bottom ar - (row + 1))" using Suc.hyps(2) by simp
        ultimately have "length b' = length b1" using Suc.hyps(1) by blast
        with len1 show ?thesis by simp
      qed
    qed
  qed
qed

text \<open>
  Whenever \<^verbatim>\<open>sampleArea\<close> returns without a read out of bounds and without an overflow,
  its result is a level from 0 to 255 divided by 255.
\<close>

lemma sampleArea_range:
  assumes "sampleArea lumaOf data stride ar = Inr v"
  shows "0 \<le> v \<and> v \<le> 1"
proof -
  let ?m = "(getWidth ar * getHeight ar) sdiv 2"
  from assms obtain r b' where
    rows: "scanRows lumaOf data stride ar ?m (top_r ar) (replicate 256 0) = Inr (r, b')"
    by (auto simp: sampleArea_def Let_def split: if_splits sum.splits)
  have len: "length b' = 256" using scanRows_length[OF rows] by simp
  show ?thesis
  proof (cases r)
    case (Some l)
    with assms rows have "v = real (unat l) / 255"
      by (auto simp: sampleArea_def Let_def simp del: of_nat_unat split: if_splits)
    moreover have "real (unat l) \<le> 255" using unat_level_le[of l] by (simp del: of_nat_unat)
    ultimately show ?thesis by (simp del: of_nat_unat)
  next
    case None
    with assms rows obtain k where k: "histogramFallback b' ?m 0 0 = Inr k" "v = real k / 255"
      by (auto simp: sampleArea_def Let_def split: if_splits sum.splits)
    have "k < 256" using histogramFallback_bound[OF k(1)] len by simp
    with k(2) show ?thesis by simp
  qed
qed

text \<open>
  Claim C4 asks that every value \<^verbatim>\<open>sampleArea\<close> returns lies in the closed interval from 0
  to 1. On a rectangle exactly half of whose pixels have level 0 no level passes the
  threshold in the scan, the buckets 1 to 255 together do not pass it either, and the
  fallback reads \<^verbatim>\<open>brightnessBuckets[256]\<close>. By then
  \<^verbatim>\<open>bucket\<close> is at least 256, and what the function goes on to return is
  \<^verbatim>\<open>bucket / 255.0f\<close>, a value above 1. The embedding stops at the read.
\<close>

theorem half_level_zero_reads_past_end:
  assumes "0 \<le> getWidth ar" and "0 \<le> getHeight ar"
    and "in_int32 (getWidth ar)" and "in_int32 (getHeight ar)"
    and "in_int32 (getWidth ar * getHeight ar)"
    and "strideInRange stride ar" and "areaInBuffer data stride ar"
    and half: "2 * countIn 0 0 (areaLevels lumaOf data stride ar)
               = int (length (areaLevels lumaOf data stride ar))"
  shows "sampleArea lumaOf data stride ar = Inl (BucketOutOfBounds 256)"
proof -
  let ?ls = "areaLevels lumaOf data stride ar"
  let ?n = "getWidth ar * getHeight ar"
  have n: "int (length ?ls) = ?n"
    using assms(1,2) by (rule int_length_areaLevels)
  have "0 \<le> ?n" using assms(1,2) by simp
  then have m: "?n sdiv 2 = ?n div 2" by (rule sdiv_two_nonneg)
  have zero: "countIn 0 0 ?ls \<le> ?n sdiv 2"
    using half n m by simp
  have "countIn 0 0 ?ls + countIn 1 255 ?ls = int (length ?ls)"
    using countIn_all[of ?ls] countIn_zero_split[of ?ls] by simp
  then have rest: "countIn 1 255 ?ls \<le> ?n sdiv 2"
    using half n m by simp
  show ?thesis
    by (rule sampleArea_reads_past_end[OF assms(3-7) zero rest])
qed

theorem half_level_zero_reads_past_end_witness:
  "0 \<le> getWidth \<lparr>left = 0, top_r = 0, right = 2, bottom = 2\<rparr>
   \<and> 0 \<le> getHeight \<lparr>left = 0, top_r = 0, right = 2, bottom = 2\<rparr>
   \<and> in_int32 (getWidth \<lparr>left = 0, top_r = 0, right = 2, bottom = 2\<rparr>)
   \<and> in_int32 (getHeight \<lparr>left = 0, top_r = 0, right = 2, bottom = 2\<rparr>)
   \<and> in_int32 (getWidth \<lparr>left = 0, top_r = 0, right = 2, bottom = 2\<rparr>
                * getHeight \<lparr>left = 0, top_r = 0, right = 2, bottom = 2\<rparr>)
   \<and> strideInRange 2 \<lparr>left = 0, top_r = 0, right = 2, bottom = 2\<rparr>
   \<and> areaInBuffer [0xFF000000, 0xFF000000, 0xFFFFFFFF, 0xFFFFFFFF] 2
         \<lparr>left = 0, top_r = 0, right = 2, bottom = 2\<rparr>
   \<and> areaLevels lumaLevel [0xFF000000, 0xFF000000, 0xFFFFFFFF, 0xFFFFFFFF] 2
         \<lparr>left = 0, top_r = 0, right = 2, bottom = 2\<rparr> = [0, 0, 255, 255]
   \<and> sampleArea lumaLevel [0xFF000000, 0xFF000000, 0xFFFFFFFF, 0xFFFFFFFF] 2
         \<lparr>left = 0, top_r = 0, right = 2, bottom = 2\<rparr> = Inl (BucketOutOfBounds 256)"
proof -
  let ?r = "\<lparr>left = 0, top_r = 0, right = 2, bottom = 2\<rparr>"
  let ?d = "[0xFF000000, 0xFF000000, 0xFFFFFFFF, 0xFFFFFFFF] :: 32 word list"
  have black: "lumaLevel 0xFF000000 = 0"
    by (rule lumaLevel_black)
  have white: "lumaLevel 0xFFFFFFFF = 255"
    by (rule lumaLevel_white)
  have w: "0 \<le> getWidth ?r" and h: "0 \<le> getHeight ?r"
    by (simp_all add: getWidth_def getHeight_def)
  have iw: "in_int32 (getWidth ?r)" and ih: "in_int32 (getHeight ?r)"
    and ip: "in_int32 (getWidth ?r * getHeight ?r)"
    by (simp_all add: getWidth_def getHeight_def in_int32_def)
  have st: "strideInRange 2 ?r"
    by (simp add: strideInRange_def in_int32_def upto_rec1)
  have inb: "areaInBuffer ?d 2 ?r"
    by (simp add: areaInBuffer_def areaOffsets_def rowOffsets_def upto_rec1)
  have lv: "areaLevels lumaLevel ?d 2 ?r = [0, 0, 255, 255]"
    by (simp add: areaLevels_def areaOffsets_def rowOffsets_def upto_rec1 black white)
  have half: "2 * countIn 0 0 (areaLevels lumaLevel ?d 2 ?r)
              = int (length (areaLevels lumaLevel ?d 2 ?r))"
    unfolding lv by (simp add: countIn_Cons)
  from half_level_zero_reads_past_end[OF w h iw ih ip st inb half] w h iw ih ip st inb lv
  show ?thesis by blast
qed

subsection \<open>The early exit\<close>

text \<open>
  A level that more than half of the pixels of the area have is the level that leaves the
  scan early.
\<close>

lemma scanLevels_majority:
  assumes maj: "int (length ls) < 2 * countIn (unat L) (unat L) ls"
  shows "\<exists>b'. scanLevels (int (length ls) div 2) ls (replicate 256 0) = (Some L, b')"
proof -
  let ?m = "int (length ls) div 2"
  have above: "?m < countIn (unat L) (unat L) ls" using maj by linarith
  have "0 \<le> ?m" by simp
  then have bound: "\<forall>k<256. replicate 256 0 ! k \<le> ?m" by simp
  have "?m < replicate 256 0 ! unat L + countIn (unat L) (unat L) ls"
    using above unat_level_less[of L] by simp
  then obtain l' b' where res: "scanLevels ?m ls (replicate 256 0) = (Some l', b')"
    using scanLevels_exits[of "replicate 256 0" ?m L ls] bound by auto
  then have "?m < replicate 256 0 ! unat l' + countIn (unat l') (unat l') ls"
    using scanLevels_Some_count[of ?m ls "replicate 256 0" l' b'] by simp
  then have above': "?m < countIn (unat l') (unat l') ls"
    using unat_level_less[of l'] by simp
  have "unat l' = unat L"
  proof (rule ccontr)
    assume "unat l' \<noteq> unat L"
    then have "countIn (unat l') (unat l') ls + countIn (unat L) (unat L) ls \<le> int (length ls)"
      by (rule countIn_disjoint)
    with above above' show False by linarith
  qed
  then have "l' = L" by (simp add: word_unat_eq_iff)
  with res show ?thesis by blast
qed

lemma sampleArea_majority:
  assumes wf: "in_int32 (getWidth ar)" "in_int32 (getHeight ar)"
      "in_int32 (getWidth ar * getHeight ar)"
      "strideInRange stride ar" "areaInBuffer data stride ar"
    and maj: "int (length (areaLevels lumaOf data stride ar))
              < 2 * countIn (unat (L :: 8 word)) (unat L) (areaLevels lumaOf data stride ar)"
  shows "sampleArea lumaOf data stride ar = Inr (real (unat L) / 255)"
proof -
  let ?ls = "areaLevels lumaOf data stride ar"
  have "0 < length ?ls"
    using maj countIn_le_length[of "unat L" "unat L" ?ls] by (cases ?ls) auto
  then have "0 < nat (getHeight ar) * nat (getWidth ar)"
    by (simp add: length_areaLevels)
  then have "0 \<le> getWidth ar" and "0 \<le> getHeight ar" by simp_all
  then have "int (length ?ls) = getWidth ar * getHeight ar"
    by (rule int_length_areaLevels)
  then have "(getWidth ar * getHeight ar) sdiv 2 = int (length ?ls) div 2"
    using sdiv_two_nonneg[of "int (length ?ls)"] by simp
  then show ?thesis
    using sampleArea_counts[OF wf, of lumaOf] scanLevels_majority[OF maj] by auto
qed

text \<open>
  Claim C5: in a rectangle where more than half of the pixels have one level \<open>L\<close>, the
  scan leaves early with \<open>L\<close> and \<^verbatim>\<open>sampleArea\<close> returns \<open>L / 255\<close>. The premise on
  the counts makes the rectangle non-empty. The other premises say that the reads of the
  scan are inside the buffer and that the 32-bit arithmetic of the function does not
  overflow.
\<close>

theorem majority_level_early_exit:
  assumes wf: "in_int32 (getWidth ar)" "in_int32 (getHeight ar)"
      "in_int32 (getWidth ar * getHeight ar)"
      "strideInRange stride ar" "areaInBuffer data stride ar"
    and maj: "int (length (areaLevels lumaOf data stride ar))
              < 2 * countIn (unat L) (unat L) (areaLevels lumaOf data stride ar)"
  shows "(\<exists>b'. scanRows lumaOf data stride ar ((getWidth ar * getHeight ar) sdiv 2) (top_r ar)
                 (replicate 256 0) = Inr (Some L, b'))
         \<and> sampleArea lumaOf data stride ar = Inr (real (unat L) / 255)"
proof -
  let ?ls = "areaLevels lumaOf data stride ar"
  let ?n = "getWidth ar * getHeight ar"
  have "0 < length ?ls"
    using maj countIn_le_length[of "unat L" "unat L" ?ls] by (cases ?ls) auto
  then have pos: "0 < nat (getHeight ar) * nat (getWidth ar)"
    by (simp add: length_areaLevels)
  then have w: "0 \<le> getWidth ar" and h: "0 \<le> getHeight ar" by simp_all
  have n: "int (length ?ls) = ?n" using w h by (rule int_length_areaLevels)
  have "0 \<le> ?n" using w h by simp
  then have m: "?n sdiv 2 = int (length ?ls) div 2" using n by (simp add: sdiv_two_nonneg)
  obtain b' where scan: "scanLevels (?n sdiv 2) ?ls (replicate 256 0) = (Some L, b')"
    using scanLevels_majority[OF maj] unfolding m by blast
  have rows: "scanRows lumaOf data stride ar (?n sdiv 2) (top_r ar) (replicate 256 0) =
                Inr (scanLevels (?n sdiv 2) ?ls (replicate 256 0))"
    using wf(4,5) scanRows_levels[of stride "top_r ar" ar data lumaOf "?n sdiv 2" "replicate 256 0"]
    by (simp add: strideInRange_def areaInBuffer_def areaOffsets_def areaLevels_def)
  have "sampleArea lumaOf data stride ar = Inr (real (unat L) / 255)"
    using sampleArea_counts[OF wf, of lumaOf] scan by simp
  with rows scan show ?thesis by simp
qed

theorem majority_level_early_exit_witness:
  "in_int32 (getWidth \<lparr>left = 1, top_r = 0, right = 3, bottom = 2\<rparr>)
   \<and> in_int32 (getHeight \<lparr>left = 1, top_r = 0, right = 3, bottom = 2\<rparr>)
   \<and> in_int32 (getWidth \<lparr>left = 1, top_r = 0, right = 3, bottom = 2\<rparr>
                * getHeight \<lparr>left = 1, top_r = 0, right = 3, bottom = 2\<rparr>)
   \<and> strideInRange 3 \<lparr>left = 1, top_r = 0, right = 3, bottom = 2\<rparr>
   \<and> areaInBuffer [0xFF000000, 0xFFFFFFFF, 0xFF000000, 0xFF000000, 0xFFFFFFFF, 0xFFFFFFFF] 3
         \<lparr>left = 1, top_r = 0, right = 3, bottom = 2\<rparr>
   \<and> areaLevels lumaLevel
         [0xFF000000, 0xFFFFFFFF, 0xFF000000, 0xFF000000, 0xFFFFFFFF, 0xFFFFFFFF] 3
         \<lparr>left = 1, top_r = 0, right = 3, bottom = 2\<rparr> = [255, 0, 255, 255]
   \<and> (\<exists>b'. scanRows lumaLevel
            [0xFF000000, 0xFFFFFFFF, 0xFF000000, 0xFF000000, 0xFFFFFFFF, 0xFFFFFFFF] 3
            \<lparr>left = 1, top_r = 0, right = 3, bottom = 2\<rparr> 2 0 (replicate 256 0)
          = Inr (Some 255, b'))
   \<and> sampleArea lumaLevel
         [0xFF000000, 0xFFFFFFFF, 0xFF000000, 0xFF000000, 0xFFFFFFFF, 0xFFFFFFFF] 3
         \<lparr>left = 1, top_r = 0, right = 3, bottom = 2\<rparr> = Inr 1"
proof -
  let ?r = "\<lparr>left = 1, top_r = 0, right = 3, bottom = 2\<rparr>"
  let ?d = "[0xFF000000, 0xFFFFFFFF, 0xFF000000, 0xFF000000, 0xFFFFFFFF, 0xFFFFFFFF] :: 32 word list"
  have black: "lumaLevel 0xFF000000 = 0"
    by (rule lumaLevel_black)
  have white: "lumaLevel 0xFFFFFFFF = 255"
    by (rule lumaLevel_white)
  have iw: "in_int32 (getWidth ?r)" and ih: "in_int32 (getHeight ?r)"
    and ip: "in_int32 (getWidth ?r * getHeight ?r)"
    by (simp_all add: getWidth_def getHeight_def in_int32_def)
  have st: "strideInRange 3 ?r"
    by (simp add: strideInRange_def in_int32_def upto_rec1)
  have inb: "areaInBuffer ?d 3 ?r"
    by (simp add: areaInBuffer_def areaOffsets_def rowOffsets_def upto_rec1)
  have lv: "areaLevels lumaLevel ?d 3 ?r = [255, 0, 255, 255]"
    by (simp add: areaLevels_def areaOffsets_def rowOffsets_def upto_rec1 black white)
  have maj: "int (length (areaLevels lumaLevel ?d 3 ?r))
             < 2 * countIn (unat (255 :: 8 word)) (unat (255 :: 8 word)) (areaLevels lumaLevel ?d 3 ?r)"
    unfolding lv by (simp add: countIn_Cons)
  have m: "(getWidth ?r * getHeight ?r) sdiv 2 = 2"
    by (simp add: getWidth_def getHeight_def signed_divide_int_def)
  from majority_level_early_exit[OF iw ih ip st inb maj] iw ih ip st inb lv
  show ?thesis by (simp add: m)
qed

subsection \<open>A uniform area\<close>

lemma countIn_uniform: "\<forall>l\<in>set ls. l = L \<Longrightarrow> countIn (unat L) (unat L) ls = int (length ls)"
  by (induction ls) (auto simp: countIn_Cons)

lemma sampleArea_uniform:
  assumes wf: "in_int32 (getWidth ar)" "in_int32 (getHeight ar)"
      "in_int32 (getWidth ar * getHeight ar)"
      "strideInRange stride ar" "areaInBuffer data stride ar"
    and nonempty: "0 < getWidth ar" "0 < getHeight ar"
    and uniform: "list_all (\<lambda>i. data ! nat i = p) (areaOffsets stride ar)"
  shows "sampleArea lumaOf data stride ar = Inr (real (unat (lumaOf p)) / 255)"
proof -
  let ?ls = "areaLevels lumaOf data stride ar"
  have "\<forall>l\<in>set ?ls. l = lumaOf p"
    using uniform by (auto simp: areaLevels_def list_all_iff)
  then have cnt: "countIn (unat (lumaOf p)) (unat (lumaOf p)) ?ls = int (length ?ls)"
    by (rule countIn_uniform)
  have "0 < nat (getHeight ar) * nat (getWidth ar)"
    using nonempty by simp
  then have "0 < length ?ls" by (simp add: length_areaLevels)
  then have "int (length ?ls) < 2 * countIn (unat (lumaOf p)) (unat (lumaOf p)) ?ls"
    using cnt by simp
  then show ?thesis by (rule sampleArea_majority[OF wf])
qed

lemma level_over_255_not_half: "real (k::nat) / 255 \<noteq> 1 / 2"
proof
  assume "real k / 255 = 1 / 2"
  then have "2 * real k = 255" by simp
  then have "real (2 * k) = real 255" by simp
  then have "2 * k = 255" by (simp only: of_nat_eq_iff)
  then show False by presburger
qed

text \<open>No result of \<^verbatim>\<open>sampleArea\<close> is one half, whatever the input.\<close>

lemma sampleArea_form:
  "sampleArea lumaOf data stride ar = Inr v \<Longrightarrow> \<exists>k::nat. v = real k / 255"
  by (auto simp: sampleArea_def Let_def simp del: of_nat_unat
        split: if_splits sum.splits prod.splits option.splits)
     (rule exI, erule sym)+

lemma sampleArea_never_half: "sampleArea lumaOf data stride ar \<noteq> Inr (1 / 2)"
  using sampleArea_form[of lumaOf data stride ar "1 / 2"] level_over_255_not_half
  by metis

text \<open>
  Claim C6 asks that a non-empty rectangle filled with one pixel value returns exactly the
  luma \<open>L\<close> of that value, for \<open>L\<close> among 0, one half and 1. The pixel with red 13,
  green 163 and blue 113 has luma exactly one half in the single precision arithmetic of
  lines 87 to 104; its level is 128, and the result on an area filled with it is
  \<open>128 / 255\<close>, not one half, also when that quotient is rounded to single precision
  as line 107 does.
\<close>

theorem uniform_half_luma_counterexample:
  "pixelLuma 0xFF71A30D = 1 / 2
   \<and> sampleArea lumaLevel [0xFF71A30D, 0xFF71A30D] 2 \<lparr>left = 0, top_r = 0, right = 2, bottom = 1\<rparr>
       = Inr (128 / 255)
   \<and> sampleArea lumaLevel [0xFF71A30D, 0xFF71A30D] 2 \<lparr>left = 0, top_r = 0, right = 2, bottom = 1\<rparr>
       \<noteq> Inr (pixelLuma 0xFF71A30D)
   \<and> map_sum id f32
         (sampleArea lumaLevel [0xFF71A30D, 0xFF71A30D] 2 \<lparr>left = 0, top_r = 0, right = 2, bottom = 1\<rparr>)
       \<noteq> Inr (pixelLuma 0xFF71A30D)"
proof -
  let ?r = "\<lparr>left = 0, top_r = 0, right = 2, bottom = 1\<rparr>"
  let ?d = "[0xFF71A30D, 0xFF71A30D] :: 32 word list"
  have wf: "in_int32 (getWidth ?r)" "in_int32 (getHeight ?r)"
      "in_int32 (getWidth ?r * getHeight ?r)" "strideInRange 2 ?r" "areaInBuffer ?d 2 ?r"
    by (simp_all add: getWidth_def getHeight_def in_int32_def strideInRange_def
          areaInBuffer_def areaOffsets_def rowOffsets_def upto_rec1)
  have ne: "0 < getWidth ?r" "0 < getHeight ?r"
    by (simp_all add: getWidth_def getHeight_def)
  have un: "list_all (\<lambda>i. ?d ! nat i = 0xFF71A30D) (areaOffsets 2 ?r)"
    by (simp add: areaOffsets_def rowOffsets_def upto_rec1)
  have res: "sampleArea lumaLevel ?d 2 ?r = Inr (128 / 255)"
    using sampleArea_uniform[OF wf ne un, of lumaLevel] by (simp add: lumaLevel_half)
  have "f32 (128 / 255) \<noteq> 1 / 2"
    using f32_quotient_not_half[of 128] by simp
  with pixelLuma_half res show ?thesis by simp
qed

text \<open>
  Claim C6 as amended. A non-empty rectangle filled with one pixel value returns the level
  of that value, the \<^verbatim>\<open>uint8_t\<close> of line 105, divided by 255, for every discretisation.
  The result is never one half. With the discretisation of the source it is exactly the
  luma of the value when that luma is 0 or 1, and it is not the luma when that luma is
  one half. All of this holds of the quotient and of the quotient rounded to single
  precision, which is what lines 107 and 118 return.
\<close>

theorem uniform_area_returns_level:
  assumes "in_int32 (getWidth ar)" and "in_int32 (getHeight ar)"
    and "in_int32 (getWidth ar * getHeight ar)"
    and "strideInRange stride ar" and "areaInBuffer data stride ar"
    and "0 < getWidth ar" and "0 < getHeight ar"
    and "list_all (\<lambda>i. data ! nat i = p) (areaOffsets stride ar)"
  shows "sampleArea lumaOf data stride ar = Inr (real (unat (lumaOf p)) / 255)
         \<and> sampleArea lumaOf data stride ar \<noteq> Inr (1 / 2)
         \<and> map_sum id f32 (sampleArea lumaOf data stride ar) \<noteq> Inr (1 / 2)
         \<and> (pixelLuma p = 0 \<or> pixelLuma p = 1 \<longrightarrow>
              sampleArea lumaLevel data stride ar = Inr (pixelLuma p)
              \<and> map_sum id f32 (sampleArea lumaLevel data stride ar) = Inr (pixelLuma p))
         \<and> (pixelLuma p = 1 / 2 \<longrightarrow>
              sampleArea lumaLevel data stride ar \<noteq> Inr (pixelLuma p)
              \<and> map_sum id f32 (sampleArea lumaLevel data stride ar) \<noteq> Inr (pixelLuma p))"
proof -
  have res: "sampleArea f data stride ar = Inr (real (unat (f p)) / 255)" for f
    using assms by (rule sampleArea_uniform)
  have flt: "map_sum id f32 (sampleArea f data stride ar) = Inr (f32 (real (unat (f p)) / 255))"
    for f
    by (simp only: res map_sum.simps)
  have nohalf: "map_sum id f32 (sampleArea f data stride ar) \<noteq> Inr (1 / 2)" for f
    unfolding flt using f32_level_not_half[of "f p"] by simp
  have zero: "sampleArea lumaLevel data stride ar = Inr (pixelLuma p)
              \<and> map_sum id f32 (sampleArea lumaLevel data stride ar) = Inr (pixelLuma p)"
    if "pixelLuma p = 0"
    unfolding flt res using that by (simp add: lumaLevel_def f32_def)
  have one: "sampleArea lumaLevel data stride ar = Inr (pixelLuma p)
             \<and> map_sum id f32 (sampleArea lumaLevel data stride ar) = Inr (pixelLuma p)"
    if "pixelLuma p = 1"
    unfolding flt res using that by (simp add: lumaLevel_def f32_zero_one)
  have half: "sampleArea lumaLevel data stride ar \<noteq> Inr (pixelLuma p)
              \<and> map_sum id f32 (sampleArea lumaLevel data stride ar) \<noteq> Inr (pixelLuma p)"
    if "pixelLuma p = 1 / 2"
    unfolding that using sampleArea_never_half[of lumaLevel data stride ar] nohalf[of lumaLevel]
    by (rule conjI)
  from res[of lumaOf] sampleArea_never_half[of lumaOf data stride ar] nohalf[of lumaOf]
    zero one half
  show ?thesis by blast
qed

theorem uniform_area_returns_level_witness:
  "in_int32 (getWidth \<lparr>left = 0, top_r = 0, right = 2, bottom = 2\<rparr>)
   \<and> in_int32 (getHeight \<lparr>left = 0, top_r = 0, right = 2, bottom = 2\<rparr>)
   \<and> in_int32 (getWidth \<lparr>left = 0, top_r = 0, right = 2, bottom = 2\<rparr>
                * getHeight \<lparr>left = 0, top_r = 0, right = 2, bottom = 2\<rparr>)
   \<and> strideInRange 2 \<lparr>left = 0, top_r = 0, right = 2, bottom = 2\<rparr>
   \<and> areaInBuffer [0xFFFFFFFF, 0xFFFFFFFF, 0xFFFFFFFF, 0xFFFFFFFF] 2
         \<lparr>left = 0, top_r = 0, right = 2, bottom = 2\<rparr>
   \<and> areaInBuffer [0xFF71A30D, 0xFF71A30D, 0xFF71A30D, 0xFF71A30D] 2
         \<lparr>left = 0, top_r = 0, right = 2, bottom = 2\<rparr>
   \<and> 0 < getWidth \<lparr>left = 0, top_r = 0, right = 2, bottom = 2\<rparr>
   \<and> 0 < getHeight \<lparr>left = 0, top_r = 0, right = 2, bottom = 2\<rparr>
   \<and> list_all (\<lambda>i. [0xFFFFFFFF, 0xFFFFFFFF, 0xFFFFFFFF, 0xFFFFFFFF :: 32 word] ! nat i = 0xFFFFFFFF)
         (areaOffsets 2 \<lparr>left = 0, top_r = 0, right = 2, bottom = 2\<rparr>)
   \<and> list_all (\<lambda>i. [0xFF71A30D, 0xFF71A30D, 0xFF71A30D, 0xFF71A30D :: 32 word] ! nat i = 0xFF71A30D)
         (areaOffsets 2 \<lparr>left = 0, top_r = 0, right = 2, bottom = 2\<rparr>)
   \<and> pixelLuma 0xFFFFFFFF = 1
   \<and> sampleArea lumaLevel [0xFFFFFFFF, 0xFFFFFFFF, 0xFFFFFFFF, 0xFFFFFFFF] 2
         \<lparr>left = 0, top_r = 0, right = 2, bottom = 2\<rparr> = Inr 1
   \<and> pixelLuma 0xFF71A30D = 1 / 2
   \<and> sampleArea lumaLevel [0xFF71A30D, 0xFF71A30D, 0xFF71A30D, 0xFF71A30D] 2
         \<lparr>left = 0, top_r = 0, right = 2, bottom = 2\<rparr> \<noteq> Inr (1 / 2)"
proof -
  let ?r = "\<lparr>left = 0, top_r = 0, right = 2, bottom = 2\<rparr>"
  let ?d = "[0xFFFFFFFF, 0xFFFFFFFF, 0xFFFFFFFF, 0xFFFFFFFF] :: 32 word list"
  let ?h = "[0xFF71A30D, 0xFF71A30D, 0xFF71A30D, 0xFF71A30D] :: 32 word list"
  have iw: "in_int32 (getWidth ?r)" and ih: "in_int32 (getHeight ?r)"
    and ip: "in_int32 (getWidth ?r * getHeight ?r)"
    by (simp_all add: getWidth_def getHeight_def in_int32_def)
  have st: "strideInRange 2 ?r"
    by (simp add: strideInRange_def in_int32_def upto_rec1)
  have inb: "areaInBuffer ?d 2 ?r" and inb': "areaInBuffer ?h 2 ?r"
    by (simp_all add: areaInBuffer_def areaOffsets_def rowOffsets_def upto_rec1)
  have w: "0 < getWidth ?r" and h: "0 < getHeight ?r"
    by (simp_all add: getWidth_def getHeight_def)
  have un: "list_all (\<lambda>i. ?d ! nat i = 0xFFFFFFFF) (areaOffsets 2 ?r)"
    and un': "list_all (\<lambda>i. ?h ! nat i = 0xFF71A30D) (areaOffsets 2 ?r)"
    by (simp_all add: areaOffsets_def rowOffsets_def upto_rec1)
  have a: "sampleArea lumaLevel ?d 2 ?r = Inr 1"
    using uniform_area_returns_level[OF iw ih ip st inb w h un, of lumaLevel] pixelLuma_white
    by (simp add: lumaLevel_white)
  have b: "sampleArea lumaLevel ?h 2 ?r \<noteq> Inr (1 / 2)"
    using uniform_area_returns_level[OF iw ih ip st inb' w h un', of lumaLevel] pixelLuma_half
    by (simp add: lumaLevel_half)
  from iw ih ip st inb inb' w h un un' pixelLuma_white a pixelLuma_half b
  show ?thesis by blast
qed

section \<open>The registry\<close>

lemma map_of_snoc_fresh:
  "k \<notin> fst ` set m \<Longrightarrow> map_of (m @ [(k, v)]) k' = (if k' = k then Some v else map_of m k')"
  by (induction m) auto

lemma map_of_emplace:
  "map_of (emplace k v m) k' =
     (if k \<in> fst ` set m then map_of m k'
      else if k' = k then Some v else map_of m k')"
  by (simp add: emplace_def map_of_snoc_fresh del: map_of_append)

lemma map_of_erase: "map_of (erase k m) k' = (if k' = k then None else map_of m k')"
  by (induction m) (auto simp: erase_def)

lemma registryOk_emplace:
  "registryOk m \<Longrightarrow> k = asBinder (listener d) \<Longrightarrow> registryOk (emplace k d m)"
  by (auto simp: registryOk_def emplace_def)

lemma registryOk_erase: "registryOk m \<Longrightarrow> registryOk (erase k m)"
  by (auto simp: registryOk_def erase_def distinct_map_filter list_all_iff)

lemma registryOk_operations:
  "registryOk []"
  "registryOk (mDescriptors st) \<Longrightarrow> registryOk (mDescriptors (addListener a h l st))"
  "registryOk (mDescriptors st) \<Longrightarrow> registryOk (mDescriptors (removeListener l st))"
  "registryOk (mDescriptors st) \<Longrightarrow> registryOk (mDescriptors (binderDied who st))"
  "registryOk (mDescriptors st) \<Longrightarrow> registryOk (mDescriptors (sampleNow st))"
  by (simp_all add: addListener_def removeListener_def binderDied_def sampleNow_def
        registryOk_emplace registryOk_erase Let_def)
     (simp add: registryOk_def)

text \<open>
  Claim C3 asks that \<^verbatim>\<open>addListener\<close> with an identity already in the registry replaces the
  descriptor stored for it. \<^verbatim>\<open>std::unordered_map::emplace\<close> inserts nothing when the key
  is present: the registry keeps the descriptor it had.
\<close>

theorem addListener_again_counterexample:
  "map_of (mDescriptors
      (addListener \<lparr>left = 5, top_r = 5, right = 15, bottom = 15\<rparr> None \<lparr>iface = 1, asBinder = 7\<rparr>
         (addListener \<lparr>left = 0, top_r = 0, right = 10, bottom = 10\<rparr> None \<lparr>iface = 1, asBinder = 7\<rparr>
            \<lparr>mDescriptors = [], mSampleRequested = False, mRunning = True\<rparr>))) 7
    = Some \<lparr>area = \<lparr>left = 0, top_r = 0, right = 10, bottom = 10\<rparr>, stopLayer = None,
            listener = \<lparr>iface = 1, asBinder = 7\<rparr>\<rparr>
   \<and> map_of (mDescriptors
      (addListener \<lparr>left = 5, top_r = 5, right = 15, bottom = 15\<rparr> None \<lparr>iface = 1, asBinder = 7\<rparr>
         (addListener \<lparr>left = 0, top_r = 0, right = 10, bottom = 10\<rparr> None \<lparr>iface = 1, asBinder = 7\<rparr>
            \<lparr>mDescriptors = [], mSampleRequested = False, mRunning = True\<rparr>))) 7
    \<noteq> Some \<lparr>area = \<lparr>left = 5, top_r = 5, right = 15, bottom = 15\<rparr>, stopLayer = None,
            listener = \<lparr>iface = 1, asBinder = 7\<rparr>\<rparr>"
  by (simp add: addListener_def emplace_def)

text \<open>
  Claim C3 as amended: \<^verbatim>\<open>addListener\<close> with an identity already in the registry leaves the
  registry as it is, so the identity keeps its first descriptor; with an identity not in
  the registry it stores the new descriptor under that identity.
\<close>

theorem addListener_first_write_wins:
  "(asBinder l \<in> fst ` set (mDescriptors st) \<longrightarrow>
      mDescriptors (addListener samplingArea stopLayerHandle l st) = mDescriptors st)
   \<and> (asBinder l \<notin> fst ` set (mDescriptors st) \<longrightarrow>
      map_of (mDescriptors (addListener samplingArea stopLayerHandle l st)) (asBinder l)
      = Some \<lparr>area = samplingArea,
              stopLayer = (case stopLayerHandle of Some h \<Rightarrow> Some (owner h) | None \<Rightarrow> None),
              listener = l\<rparr>)"
  by (simp add: addListener_def Let_def map_of_emplace) (simp add: emplace_def)


theorem addListener_first_write_wins_witness:
  "asBinder \<lparr>iface = 1, asBinder = 7\<rparr>
     \<in> fst ` set (mDescriptors \<lparr>mDescriptors =
           [(7, \<lparr>area = \<lparr>left = 0, top_r = 0, right = 10, bottom = 10\<rparr>, stopLayer = None,
                 listener = \<lparr>iface = 1, asBinder = 7\<rparr>\<rparr>)],
           mSampleRequested = False, mRunning = True\<rparr>)
   \<and> mDescriptors
        (addListener \<lparr>left = 5, top_r = 5, right = 15, bottom = 15\<rparr> (Some \<lparr>owner = 3\<rparr>)
           \<lparr>iface = 1, asBinder = 7\<rparr>
           \<lparr>mDescriptors =
              [(7, \<lparr>area = \<lparr>left = 0, top_r = 0, right = 10, bottom = 10\<rparr>, stopLayer = None,
                    listener = \<lparr>iface = 1, asBinder = 7\<rparr>\<rparr>)],
            mSampleRequested = False, mRunning = True\<rparr>)
      = [(7, \<lparr>area = \<lparr>left = 0, top_r = 0, right = 10, bottom = 10\<rparr>, stopLayer = None,
              listener = \<lparr>iface = 1, asBinder = 7\<rparr>\<rparr>)]
   \<and> asBinder \<lparr>iface = 1, asBinder = 7\<rparr>
     \<notin> fst ` set (mDescriptors \<lparr>mDescriptors = [], mSampleRequested = False, mRunning = True\<rparr>)
   \<and> map_of (mDescriptors
        (addListener \<lparr>left = 5, top_r = 5, right = 15, bottom = 15\<rparr> (Some \<lparr>owner = 3\<rparr>)
           \<lparr>iface = 1, asBinder = 7\<rparr>
           \<lparr>mDescriptors = [], mSampleRequested = False, mRunning = True\<rparr>)) 7
      = Some \<lparr>area = \<lparr>left = 5, top_r = 5, right = 15, bottom = 15\<rparr>, stopLayer = Some 3,
              listener = \<lparr>iface = 1, asBinder = 7\<rparr>\<rparr>"
proof -
  let ?l = "\<lparr>iface = 1, asBinder = 7\<rparr>"
  let ?new = "\<lparr>left = 5, top_r = 5, right = 15, bottom = 15\<rparr>"
  let ?d = "\<lparr>area = \<lparr>left = 0, top_r = 0, right = 10, bottom = 10\<rparr>, stopLayer = None,
             listener = ?l\<rparr>"
  let ?st1 = "\<lparr>mDescriptors = [(7, ?d)], mSampleRequested = False, mRunning = True\<rparr>"
  let ?st0 = "\<lparr>mDescriptors = [], mSampleRequested = False, mRunning = True\<rparr>"
  have present: "asBinder ?l \<in> fst ` set (mDescriptors ?st1)" by simp
  have absent: "asBinder ?l \<notin> fst ` set (mDescriptors ?st0)" by simp
  from addListener_first_write_wins[of ?l ?st1 ?new "Some \<lparr>owner = 3\<rparr>"] present
  have a: "mDescriptors (addListener ?new (Some \<lparr>owner = 3\<rparr>) ?l ?st1) = [(7, ?d)]"
    by simp
  from addListener_first_write_wins[of ?l ?st0 ?new "Some \<lparr>owner = 3\<rparr>"] absent
  have b: "map_of (mDescriptors (addListener ?new (Some \<lparr>owner = 3\<rparr>) ?l ?st0)) 7
           = Some \<lparr>area = ?new, stopLayer = Some 3, listener = ?l\<rparr>"
    by simp
  from present a absent b show ?thesis by blast
qed

section \<open>One sampling pass\<close>

lemma captureSample_state:
  "captureSample lumaOf intersect regionBounds env st = Inr (calls, st') \<Longrightarrow>
   st' = (if mDescriptors st = [] then st else whileUnlocked env st)"
  by (auto simp: captureSample_def Let_def split: if_splits sum.splits)

lemma captureSample_pass:
  "captureSample lumaOf intersect regionBounds env st =
     (if mDescriptors st = [] then Inr ([], st)
      else case passLumas lumaOf intersect regionBounds env st of
             Inl e \<Rightarrow> Inl e
           | Inr lumas \<Rightarrow>
               if length lumas \<noteq> length (passActive intersect regionBounds env st)
               then Inr ([], whileUnlocked env st)
               else Inr (deliver (passActive intersect regionBounds env st) lumas,
                         whileUnlocked env st))"
  unfolding captureSample_def passLumas_def passActive_def passListeners_def passArea_def
    snapshot_def Let_def ..

lemma deliver_zip:
  "length lumas = length active \<Longrightarrow> deliver active lumas = zip (map listener active) lumas"
  by (auto simp: deliver_def intro!: nth_equalityI)

lemma length_transform_areas: "transform_areas f ds = Inr vs \<Longrightarrow> length vs = length ds"
  by (induction ds arbitrary: vs) (auto split: sum.splits)

lemma sampleBuffer_length:
  "sampleBuffer lumaOf (Some data) stride p ds = Inr lumas \<Longrightarrow> length lumas = length ds"
  by (simp add: sampleBuffer_def length_transform_areas)

lemma registry_listeners_distinct:
  assumes "registryOk m"
  shows "distinct (map listener (map snd m))"
proof -
  have keys: "map fst m = map (asBinder \<circ> listener) (map snd m)"
    using assms by (auto simp: registryOk_def list_all_iff)
  have "distinct (map (asBinder \<circ> listener) (map snd m))"
    using assms keys by (simp add: registryOk_def)
  then have "distinct (map asBinder (map listener (map snd m)))"
    by (simp add: comp_def)
  then show ?thesis
    using distinct_map[of asBinder "map listener (map snd m)"] by blast
qed

lemma active_listeners_distinct:
  "registryOk (mDescriptors st) \<Longrightarrow>
   distinct (map listener (passActive intersect regionBounds env st))"
  using registry_listeners_distinct[of "mDescriptors st"]
  by (simp add: passActive_def activeDescriptors_def snapshot_def distinct_map_filter)

lemma passActive_empty: "mDescriptors st = [] \<Longrightarrow> passActive intersect regionBounds env st = []"
  by (simp add: passActive_def activeDescriptors_def snapshot_def)

lemma passLumas_empty:
  "mDescriptors st = [] \<Longrightarrow> passLumas lumaOf intersect regionBounds env st = Inr lumas \<Longrightarrow>
   lumas = []"
  by (auto simp: passLumas_def passActive_empty sampleBuffer_def split: option.splits)

text \<open>
  What other threads do while the mutex is released changes the state the pass returns
  and nothing else: the calls come from the snapshot.
\<close>

lemma captureSample_window:
  "map_sum id fst (captureSample lumaOf intersect regionBounds (env\<lparr>whileUnlocked := f\<rparr>) st)
   = map_sum id fst (captureSample lumaOf intersect regionBounds env st)"
  by (simp add: captureSample_pass passLumas_def passActive_def passListeners_def
        split: sum.splits)

subsection \<open>The layer filter\<close>

lemma markIntersecting_fold:
  "fold (\<lambda>d (intersectsAnyArea, ls').
           if intersect t (area d) then (True, insert (listener d) ls')
           else (intersectsAnyArea, ls')) ds (any, ls)
   = (any \<or> (\<exists>d\<in>set ds. intersect t (area d)),
      ls \<union> listener ` {d \<in> set ds. intersect t (area d)})"
  by (induction ds arbitrary: any ls) auto

lemma markIntersecting_eq:
  "markIntersecting intersect t ds ls
   = ((\<exists>d\<in>set ds. intersect t (area d)), ls \<union> listener ` {d \<in> set ds. intersect t (area d)})"
  by (simp add: markIntersecting_def markIntersecting_fold)

text \<open>Once the stop flag is set the filter changes nothing any more.\<close>

lemma filterVisitor_stopped:
  "stopLayerFound s \<Longrightarrow> filterVisitor intersect ds sampledArea layer s = s"
  by (simp add: filterVisitor_def)

lemma fold_filterVisitor_stopped:
  "stopLayerFound s \<Longrightarrow> fold (filterVisitor intersect ds sampledArea) layers s = s"
  by (induction layers) (simp_all add: filterVisitor_stopped)

lemma filterVisitor_stop_layer:
  "list_ex (\<lambda>d. Some (layerId layer) = stopLayer d) ds \<Longrightarrow>
   filterVisitor intersect ds sampledArea layer s = s\<lparr>stopLayerFound := True\<rparr>"
  by (cases "stopLayerFound s") (simp_all add: filterVisitor_def)

lemma traverseLayers_stop:
  assumes "list_ex (\<lambda>d. Some (layerId layer) = stopLayer d) ds"
  shows "traverseLayers intersect ds sampledArea ls (pre @ layer # post)
         = traverseLayers intersect ds sampledArea ls pre"
proof -
  let ?s0 = "\<lparr>stopLayerFound = False, listeners = ls, visited = []\<rparr>"
  let ?s1 = "fold (filterVisitor intersect ds sampledArea) pre ?s0"
  have "fold (filterVisitor intersect ds sampledArea) (pre @ layer # post) ?s0
        = fold (filterVisitor intersect ds sampledArea) post (?s1\<lparr>stopLayerFound := True\<rparr>)"
    using assms by (simp add: filterVisitor_stop_layer)
  also have "\<dots> = ?s1\<lparr>stopLayerFound := True\<rparr>"
    by (rule fold_filterVisitor_stopped) simp
  finally show ?thesis by (simp add: traverseLayers_def Let_def)
qed

lemma filterVisitor_visited:
  "set (visited (filterVisitor intersect ds sampledArea layer s)) \<subseteq> insert layer (set (visited s))"
  by (auto simp: filterVisitor_def markIntersecting_eq)

lemma fold_filterVisitor_visited:
  "set (visited (fold (filterVisitor intersect ds sampledArea) layers s))
   \<subseteq> set layers \<union> set (visited s)"
proof (induction layers arbitrary: s)
  case Nil
  then show ?case by simp
next
  case (Cons layer layers)
  show ?case
    using Cons.IH[of "filterVisitor intersect ds sampledArea layer s"]
      filterVisitor_visited[of intersect ds sampledArea layer s]
    by auto
qed

lemma traverseLayers_visited:
  "set (snd (traverseLayers intersect ds sampledArea ls layers)) \<subseteq> set layers"
  using fold_filterVisitor_visited[of intersect ds sampledArea layers
          "\<lparr>stopLayerFound = False, listeners = ls, visited = []\<rparr>"]
  by (simp add: traverseLayers_def Let_def)

text \<open>
  A listener all of whose descriptors have their content after their stop layer is not
  marked by a traversal.
\<close>

lemma fold_filterVisitor_unmarked:
  assumes "\<forall>d\<in>set ds. listener d = l \<longrightarrow> contentAfterStop intersect d layers"
    and "l \<notin> listeners s"
  shows "l \<notin> listeners (fold (filterVisitor intersect ds sampledArea) layers s)"
  using assms
proof (induction layers arbitrary: s)
  case Nil
  then show ?case by simp
next
  case (Cons layer layers)
  show ?case
  proof (cases "stopLayerFound s")
    case True
    then show ?thesis
      using Cons.prems(2) fold_filterVisitor_stopped[OF True, of intersect ds sampledArea "layer # layers"]
      by simp
  next
    case False
    show ?thesis
    proof (cases "list_ex (\<lambda>d. Some (layerId layer) = stopLayer d) ds")
      case True
      have "fold (filterVisitor intersect ds sampledArea) (layer # layers) s
            = s\<lparr>stopLayerFound := True\<rparr>"
        using filterVisitor_stop_layer[OF True, of intersect sampledArea s]
          fold_filterVisitor_stopped[of "s\<lparr>stopLayerFound := True\<rparr>" intersect ds sampledArea layers]
        by simp
      then show ?thesis using Cons.prems(2) by simp
    next
      case nostop: False
      then have rest: "\<forall>d\<in>set ds. listener d = l \<longrightarrow>
                  \<not> intersect (transformed layer) (area d) \<and> contentAfterStop intersect d layers"
        using Cons.prems(1) by (auto simp: list_ex_iff)
      have "l \<notin> listeners (filterVisitor intersect ds sampledArea layer s)"
        using rest Cons.prems(2) False nostop
        by (auto simp: filterVisitor_def markIntersecting_eq)
      then show ?thesis
        using Cons.IH[of "filterVisitor intersect ds sampledArea layer s"] rest by simp
    qed
  qed
qed

lemma captureScreenCore_unmarked_from:
  assumes "\<forall>layers\<in>set ts. \<forall>d\<in>set ds. listener d = l \<longrightarrow> contentAfterStop intersect d layers"
    and "l \<notin> ls"
  shows "l \<notin> fold (\<lambda>layers ls. fst (traverseLayers intersect ds sampledArea ls layers)) ts ls"
  using assms
proof (induction ts arbitrary: ls)
  case Nil
  then show ?case by simp
next
  case (Cons layers ts)
  have "l \<notin> fst (traverseLayers intersect ds sampledArea ls layers)"
    using Cons.prems
      fold_filterVisitor_unmarked[of ds l intersect layers
        "\<lparr>stopLayerFound = False, listeners = ls, visited = []\<rparr>" sampledArea]
    by (simp add: traverseLayers_def Let_def)
  then show ?case using Cons.IH Cons.prems(1) by simp
qed

lemma captureScreenCore_unmarked:
  "\<forall>layers\<in>set ts. \<forall>d\<in>set ds. listener d = l \<longrightarrow> contentAfterStop intersect d layers \<Longrightarrow>
   l \<notin> captureScreenCore intersect ds sampledArea ts"
  unfolding captureScreenCore_def by (rule captureScreenCore_unmarked_from) simp_all

lemma deliver_listeners: "fst ` set (deliver active lumas) \<subseteq> listener ` set active"
  by (auto simp: deliver_def)

lemma captureSample_calls:
  "captureSample lumaOf intersect regionBounds env st = Inr (calls, st') \<Longrightarrow>
   fst ` set calls \<subseteq> passListeners intersect regionBounds env st"
  using deliver_listeners
  by (fastforce simp: captureSample_pass passActive_def activeDescriptors_def
        split: if_splits sum.splits)

lemma registry_listener_unique:
  assumes "registryOk m" "(k, d) \<in> set m" "(k', d') \<in> set m" "listener d' = listener d"
  shows "d' = d"
proof -
  from assms(1,2,3) have "k = asBinder (listener d)" "k' = asBinder (listener d')"
    by (auto simp: registryOk_def list_all_iff)
  with assms(4) have "k' = k" by simp
  moreover from assms(1) have "distinct (map fst m)" by (simp add: registryOk_def)
  ultimately show ?thesis using assms(2,3) by (metis eq_key_imp_eq_value)
qed

text \<open>
  A listener is marked only through a descriptor of its own whose area a visited layer
  intersects.
\<close>

lemma filterVisitor_marked:
  "listeners (filterVisitor intersect ds sampledArea layer s)
   \<subseteq> listeners s \<union> listener ` {d \<in> set ds. intersect (transformed layer) (area d)}"
  by (auto simp: filterVisitor_def markIntersecting_eq)

lemma fold_filterVisitor_marked:
  "listeners (fold (filterVisitor intersect ds sampledArea) layers s)
   \<subseteq> listeners s
     \<union> listener ` {d \<in> set ds. \<exists>layer\<in>set layers. intersect (transformed layer) (area d)}"
proof (induction layers arbitrary: s)
  case Nil
  then show ?case by simp
next
  case (Cons layer layers)
  show ?case
    using Cons.IH[of "filterVisitor intersect ds sampledArea layer s"]
      filterVisitor_marked[of intersect ds sampledArea layer s]
    by auto
qed

lemma traverseLayers_marked:
  assumes "l \<in> fst (traverseLayers intersect ds sampledArea ls layers)"
  shows "l \<in> ls \<or> (\<exists>d\<in>set ds. listener d = l
                       \<and> (\<exists>layer\<in>set layers. intersect (transformed layer) (area d)))"
proof -
  from assms have "l \<in> listeners (fold (filterVisitor intersect ds sampledArea) layers
                      \<lparr>stopLayerFound = False, listeners = ls, visited = []\<rparr>)"
    by (simp add: traverseLayers_def Let_def)
  then have "l \<in> ls \<union> listener ` {d \<in> set ds. \<exists>layer\<in>set layers.
                                        intersect (transformed layer) (area d)}"
    using fold_filterVisitor_marked[of intersect ds sampledArea layers
            "\<lparr>stopLayerFound = False, listeners = ls, visited = []\<rparr>"]
    by auto
  then show ?thesis by auto
qed

lemma captureScreenCore_marked_from:
  assumes "l \<in> fold (\<lambda>layers ls. fst (traverseLayers intersect ds sampledArea ls layers)) ts ls"
  shows "l \<in> ls \<or> (\<exists>d\<in>set ds. listener d = l
                       \<and> (\<exists>layers\<in>set ts. \<exists>layer\<in>set layers.
                             intersect (transformed layer) (area d)))"
  using assms
proof (induction ts arbitrary: ls)
  case Nil
  then show ?case by simp
next
  case (Cons layers ts)
  let ?X = "fst (traverseLayers intersect ds sampledArea ls layers)"
  from Cons.prems
  have "l \<in> fold (\<lambda>layers ls. fst (traverseLayers intersect ds sampledArea ls layers)) ts ?X"
    by simp
  then have "l \<in> ?X \<or> (\<exists>d\<in>set ds. listener d = l
                       \<and> (\<exists>layers\<in>set ts. \<exists>layer\<in>set layers.
                             intersect (transformed layer) (area d)))"
    by (rule Cons.IH)
  then show ?case
  proof
    assume "l \<in> ?X"
    then have "l \<in> ls \<or> (\<exists>d\<in>set ds. listener d = l
                       \<and> (\<exists>layer\<in>set layers. intersect (transformed layer) (area d)))"
      by (rule traverseLayers_marked)
    then show ?thesis by auto
  next
    assume "\<exists>d\<in>set ds. listener d = l
              \<and> (\<exists>layers\<in>set ts. \<exists>layer\<in>set layers. intersect (transformed layer) (area d))"
    then show ?thesis by auto
  qed
qed

lemma captureScreenCore_marked:
  assumes "l \<in> captureScreenCore intersect ds sampledArea ts"
  shows "\<exists>d\<in>set ds. listener d = l
           \<and> (\<exists>layers\<in>set ts. \<exists>layer\<in>set layers. intersect (transformed layer) (area d))"
  using captureScreenCore_marked_from[of l intersect ds sampledArea ts "{}"] assms
  unfolding captureScreenCore_def by simp

text \<open>
  In a registry that \<^verbatim>\<open>addListener\<close> built, an active descriptor is one whose own area
  a visited layer intersected.
\<close>

lemma passActive_intersected:
  assumes "registryOk (mDescriptors st)"
    and "d \<in> set (passActive intersect regionBounds env st)"
  shows "\<exists>layers\<in>set (traversals env). \<exists>layer\<in>set layers. intersect (transformed layer) (area d)"
proof -
  from assms(2) have din: "d \<in> set (snapshot st)"
    and "listener d \<in> passListeners intersect regionBounds env st"
    by (simp_all add: passActive_def activeDescriptors_def)
  then obtain d' where d': "d' \<in> set (snapshot st)" "listener d' = listener d"
      "\<exists>layers\<in>set (traversals env). \<exists>layer\<in>set layers. intersect (transformed layer) (area d')"
    using captureScreenCore_marked[of "listener d" intersect "snapshot st"
            "passArea regionBounds st" "traversals env"]
    by (auto simp: passListeners_def)
  from din obtain k where k: "(k, d) \<in> set (mDescriptors st)"
    by (auto simp: snapshot_def)
  from d'(1) obtain k' where k': "(k', d') \<in> set (mDescriptors st)"
    by (auto simp: snapshot_def)
  have "d' = d"
    using registry_listener_unique[OF assms(1) k k' d'(2)] .
  with d'(3) show ?thesis by simp
qed

lemma rect_minus_size:
  "getWidth (rect_minus r p) = getWidth r" "getHeight (rect_minus r p) = getHeight r"
  by (simp_all add: getWidth_def getHeight_def rect_minus_def)

lemma transform_areas_map: "transform_areas f (map g xs) = transform_areas (\<lambda>x. f (g x)) xs"
  by (induction xs) (simp_all split: sum.splits)

lemma passLumas_rects:
  "passLumas lumaOf intersect regionBounds env st
   = (case locked env of
        None \<Rightarrow> Inr []
      | Some data \<Rightarrow>
          transform_areas (sampleArea lumaOf data (getStride env))
            (passRects intersect regionBounds env st))"
  by (simp add: passLumas_def sampleBuffer_def passRects_def transform_areas_map
        split: option.splits)

lemma intersects_not_empty: "intersects t a \<Longrightarrow> 0 < getWidth a \<and> 0 < getHeight a"
  by (auto simp: intersects_def getWidth_def getHeight_def)

subsection \<open>The concrete pass\<close>

lemma exampleState_registry:
  "mDescriptors exampleState = [(11, descriptorA), (12, descriptorB)]"
  by (simp add: exampleState_def addListener_def emplace_def listenerA_def listenerB_def
        descriptorA_def descriptorB_def)

lemma exampleState_ok: "registryOk (mDescriptors exampleState)"
  unfolding exampleState_def by (intro registryOk_operations) (simp add: registryOk_def)

lemma exampleCapture_fields:
  "traversals exampleCapture = [[cornerLayer, stopLayer9, backLayer]]"
  "locked exampleCapture = Some (replicate 9 0xFF404040)"
  "getStride exampleCapture = 3"
  "whileUnlocked exampleCapture st = st"
  by (simp_all add: exampleCapture_def)

lemma example_snapshot: "snapshot exampleState = [descriptorA, descriptorB]"
  by (simp add: snapshot_def exampleState_registry)

lemma example_area:
  "passArea boundsOf exampleState = \<lparr>left = 0, top_r = 0, right = 3, bottom = 3\<rparr>"
  by (simp add: passArea_def example_snapshot boundsOf_def descriptorA_def descriptorB_def)

lemma example_listeners:
  "passListeners intersects boundsOf exampleCapture exampleState = {listenerA}"
  by (simp add: passListeners_def example_area example_snapshot exampleCapture_fields
        captureScreenCore_def traverseLayers_def filterVisitor_def markIntersecting_def
        cornerLayer_def stopLayer9_def backLayer_def descriptorA_def descriptorB_def
        intersects_def Let_def)

lemma example_active:
  "passActive intersects boundsOf exampleCapture exampleState = [descriptorA]"
  by (simp add: passActive_def example_listeners example_snapshot activeDescriptors_def
        descriptorA_def descriptorB_def listenerA_def listenerB_def)

lemma example_grey: "lumaLevel 0xFF404040 = 64"
    by (rule lumaLevel_grey64)

lemma example_sample:
  "sampleArea lumaLevel (replicate 9 0xFF404040) 3 \<lparr>left = 0, top_r = 0, right = 2, bottom = 2\<rparr>
   = Inr (64 / 255)"
proof -
  let ?r = "\<lparr>left = 0, top_r = 0, right = 2, bottom = 2\<rparr>"
  let ?d = "replicate 9 0xFF404040 :: 32 word list"
  have wf: "in_int32 (getWidth ?r)" "in_int32 (getHeight ?r)"
      "in_int32 (getWidth ?r * getHeight ?r)" "strideInRange 3 ?r" "areaInBuffer ?d 3 ?r"
    by (simp_all add: getWidth_def getHeight_def in_int32_def strideInRange_def
          areaInBuffer_def areaOffsets_def rowOffsets_def upto_rec1)
  have ne: "0 < getWidth ?r" "0 < getHeight ?r"
    by (simp_all add: getWidth_def getHeight_def)
  have un: "list_all (\<lambda>i. ?d ! nat i = 0xFF404040) (areaOffsets 3 ?r)"
    by (simp add: areaOffsets_def rowOffsets_def upto_rec1)
  show ?thesis
    using sampleArea_uniform[OF wf ne un, of lumaLevel] by (simp add: example_grey)
qed

lemma example_lumas:
  "passLumas lumaLevel intersects boundsOf exampleCapture exampleState = Inr [64 / 255]"
  by (simp add: passLumas_def example_active example_area sampleBuffer_def exampleCapture_fields
        leftTop_def rect_minus_def descriptorA_def example_sample)

lemma example_lock_fails:
  "passLumas lumaLevel intersects boundsOf (exampleCapture\<lparr>locked := None\<rparr>) exampleState = Inr []"
  by (simp add: passLumas_def sampleBuffer_def)

lemma example_active_lock_fails:
  "passActive intersects boundsOf (exampleCapture\<lparr>locked := None\<rparr>) exampleState = [descriptorA]"
  using example_active by (simp add: passActive_def passListeners_def)

lemma example_run:
  "captureSample lumaLevel intersects boundsOf exampleCapture exampleState
   = Inr ([(listenerA, 64 / 255)], exampleState)"
  by (simp add: captureSample_pass exampleState_registry example_lumas example_active deliver_def
        descriptorA_def exampleCapture_fields)

lemma emptyAreaState_registry:
  "mDescriptors emptyAreaState = [(11, descriptorA), (12, descriptorB), (13, descriptorC)]"
  by (simp add: emptyAreaState_def exampleState_registry addListener_def emplace_def listenerC_def
        descriptorC_def)

lemma emptyAreaState_ok: "registryOk (mDescriptors emptyAreaState)"
  unfolding emptyAreaState_def by (intro registryOk_operations exampleState_ok)

lemma backCapture_fields:
  "traversals backCapture = [[backLayer]]"
  "locked backCapture = Some (replicate 9 0xFF404040)"
  "getStride backCapture = 3"
  by (simp_all add: backCapture_def exampleCapture_def)

lemma emptyArea_snapshot: "snapshot emptyAreaState = [descriptorA, descriptorB, descriptorC]"
  by (simp add: snapshot_def emptyAreaState_registry)

lemma emptyArea_area:
  "passArea boundsOf emptyAreaState = \<lparr>left = 0, top_r = 0, right = 3, bottom = 3\<rparr>"
  by (simp add: passArea_def emptyArea_snapshot boundsOf_def descriptorA_def descriptorB_def
        descriptorC_def)

lemma emptyArea_listeners:
  "passListeners intersects boundsOf backCapture emptyAreaState = {listenerA, listenerB}"
  by (simp add: passListeners_def emptyArea_area emptyArea_snapshot backCapture_fields
        captureScreenCore_def traverseLayers_def filterVisitor_def markIntersecting_def
        backLayer_def descriptorA_def descriptorB_def descriptorC_def
        intersects_def Let_def insert_commute)

lemma emptyArea_active:
  "passActive intersects boundsOf backCapture emptyAreaState = [descriptorA, descriptorB]"
  by (simp add: passActive_def emptyArea_listeners emptyArea_snapshot activeDescriptors_def
        descriptorA_def descriptorB_def descriptorC_def listenerA_def listenerB_def listenerC_def)

lemma emptyArea_rects:
  "passRects intersects boundsOf backCapture emptyAreaState
   = [\<lparr>left = 0, top_r = 0, right = 2, bottom = 2\<rparr>, \<lparr>left = 1, top_r = 1, right = 3, bottom = 3\<rparr>]"
  by (simp add: passRects_def emptyArea_active emptyArea_area leftTop_def rect_minus_def
        descriptorA_def descriptorB_def)

lemma example_sample_inner:
  "sampleArea lumaLevel (replicate 9 0xFF404040) 3 \<lparr>left = 1, top_r = 1, right = 3, bottom = 3\<rparr>
   = Inr (64 / 255)"
proof -
  let ?r = "\<lparr>left = 1, top_r = 1, right = 3, bottom = 3\<rparr>"
  let ?d = "replicate 9 0xFF404040 :: 32 word list"
  have wf: "in_int32 (getWidth ?r)" "in_int32 (getHeight ?r)"
      "in_int32 (getWidth ?r * getHeight ?r)" "strideInRange 3 ?r" "areaInBuffer ?d 3 ?r"
    by (simp_all add: getWidth_def getHeight_def in_int32_def strideInRange_def
          areaInBuffer_def areaOffsets_def rowOffsets_def upto_rec1)
  have ne: "0 < getWidth ?r" "0 < getHeight ?r"
    by (simp_all add: getWidth_def getHeight_def)
  have un: "list_all (\<lambda>i. ?d ! nat i = 0xFF404040) (areaOffsets 3 ?r)"
    by (simp add: areaOffsets_def rowOffsets_def upto_rec1)
  show ?thesis
    using sampleArea_uniform[OF wf ne un, of lumaLevel] by (simp add: example_grey)
qed

subsection \<open>The rectangles of a pass\<close>





section \<open>Delivery, the stop layer and the frame of the entry points\<close>

text \<open>
  Claim C7: the callbacks of a pass are delivered exactly when \<^verbatim>\<open>sampleBuffer\<close> returned
  as many lumas as there are active descriptors. Then the calls are, in order, the
  listener of each active descriptor with the luma at its position, and no listener
  occurs twice when the registry is one that \<^verbatim>\<open>addListener\<close> built. Otherwise there is no
  call. A failed lock gives no luma and no call, and the pass ends as one without any
  active descriptor does: nothing tells the two apart.
\<close>

theorem delivery_needs_matching_counts:
  assumes "passLumas lumaOf intersect regionBounds env st = Inr lumas"
  shows "\<exists>calls.
           captureSample lumaOf intersect regionBounds env st
             = Inr (calls, if mDescriptors st = [] then st else whileUnlocked env st)
           \<and> (length lumas = length (passActive intersect regionBounds env st) \<longrightarrow>
                calls = zip (map listener (passActive intersect regionBounds env st)) lumas
                \<and> (registryOk (mDescriptors st) \<longrightarrow> distinct (map fst calls)))
           \<and> (length lumas \<noteq> length (passActive intersect regionBounds env st) \<longrightarrow>
                calls = [] \<and> locked env = None)
           \<and> (locked env = None \<longrightarrow> lumas = [] \<and> calls = [])"
proof -
  let ?active = "passActive intersect regionBounds env st"
  let ?st' = "if mDescriptors st = [] then st else whileUnlocked env st"
  show ?thesis
  proof (cases "length lumas = length ?active")
    case True
    let ?calls = "zip (map listener ?active) lumas"
    have run: "captureSample lumaOf intersect regionBounds env st = Inr (?calls, ?st')"
    proof (cases "mDescriptors st = []")
      case empty: True
      then have "?calls = []"
        by (simp add: passActive_empty)
      with empty show ?thesis by (simp add: captureSample_pass)
    next
      case False
      then show ?thesis using assms True by (simp add: captureSample_pass deliver_zip)
    qed
    have fst: "map fst ?calls = map listener ?active"
      using True by (simp add: map_fst_zip)
    have dist: "distinct (map fst ?calls)" if "registryOk (mDescriptors st)"
      using active_listeners_distinct[OF that, of intersect regionBounds env] fst by simp
    have none: "lumas = [] \<and> ?calls = []" if "locked env = None"
      using assms that by (simp add: passLumas_def sampleBuffer_def)
    show ?thesis
      by (rule exI[of _ ?calls]) (use run True dist none in simp)
  next
    case False
    then have nonempty: "mDescriptors st \<noteq> []"
      using passLumas_empty[OF _ assms] passActive_empty[of st intersect regionBounds env]
      by auto
    have run: "captureSample lumaOf intersect regionBounds env st = Inr ([], ?st')"
      using assms False nonempty by (simp add: captureSample_pass)
    have lock: "locked env = None"
    proof (cases "locked env")
      case None
      then show ?thesis .
    next
      case (Some data)
      with assms have "length lumas = length ?active"
        by (simp add: passLumas_def sampleBuffer_length)
      with False show ?thesis by simp
    qed
    then have "lumas = []"
      using assms by (simp add: passLumas_def sampleBuffer_def)
    with run False lock show ?thesis
      by (intro exI[of _ "[]"]) simp
  qed
qed

theorem delivery_needs_matching_counts_witness:
  "mDescriptors exampleState \<noteq> []
   \<and> passLumas lumaLevel intersects boundsOf exampleCapture exampleState = Inr [64 / 255]
   \<and> passActive intersects boundsOf exampleCapture exampleState = [descriptorA]
   \<and> captureSample lumaLevel intersects boundsOf exampleCapture exampleState
       = Inr ([(listenerA, 64 / 255)], exampleState)
   \<and> passLumas lumaLevel intersects boundsOf (exampleCapture\<lparr>locked := None\<rparr>) exampleState
       = Inr []
   \<and> passActive intersects boundsOf (exampleCapture\<lparr>locked := None\<rparr>) exampleState
       = [descriptorA]
   \<and> captureSample lumaLevel intersects boundsOf (exampleCapture\<lparr>locked := None\<rparr>) exampleState
       = Inr ([], exampleState)"
proof -
  have ne: "mDescriptors exampleState \<noteq> []" by (simp add: exampleState_registry)
  from delivery_needs_matching_counts[OF example_lumas]
  have a: "captureSample lumaLevel intersects boundsOf exampleCapture exampleState
           = Inr ([(listenerA, 64 / 255)], exampleState)"
    by (auto simp: example_active exampleCapture_fields descriptorA_def exampleState_registry)
  from delivery_needs_matching_counts[OF example_lock_fails]
  have b: "captureSample lumaLevel intersects boundsOf (exampleCapture\<lparr>locked := None\<rparr>)
             exampleState = Inr ([], exampleState)"
    by (auto simp: example_active_lock_fails exampleCapture_fields exampleState_registry)
  from ne example_lumas example_active a example_lock_fails example_active_lock_fails b
  show ?thesis by simp
qed

text \<open>
  Claim C8: when the filter meets a layer that is the stop layer of some descriptor,
  whichever it is, the traversal gives what it gave up to that layer: that layer and all
  layers after it are not handed to the renderer and mark no listener. And a descriptor of
  the registry all of whose content comes after its stop layer in every traversal of the
  pass is not marked, is not among the active descriptors, and its listener is not
  called.
\<close>

theorem stop_layer_suppresses_rest:
  assumes "list_ex (\<lambda>d. Some (layerId layer) = stopLayer d) ds"
    and "registryOk (mDescriptors st)" and "(k, d) \<in> set (mDescriptors st)"
    and "list_all (contentAfterStop intersect d) (traversals env)"
    and "captureSample lumaOf intersect regionBounds env st = Inr (calls, st')"
  shows "traverseLayers intersect ds sampledArea ls (pre @ layer # post)
           = traverseLayers intersect ds sampledArea ls pre
         \<and> set (snd (traverseLayers intersect ds sampledArea ls (pre @ layer # post))) \<subseteq> set pre
         \<and> listener d \<notin> passListeners intersect regionBounds env st
         \<and> d \<notin> set (passActive intersect regionBounds env st)
         \<and> listener d \<notin> fst ` set calls"
proof -
  have eq: "traverseLayers intersect ds sampledArea ls (pre @ layer # post)
            = traverseLayers intersect ds sampledArea ls pre"
    using assms(1) by (rule traverseLayers_stop)
  have sub: "set (snd (traverseLayers intersect ds sampledArea ls (pre @ layer # post))) \<subseteq> set pre"
    unfolding eq by (rule traverseLayers_visited)
  have only: "d' = d" if "d' \<in> set (snapshot st)" "listener d' = listener d" for d'
  proof -
    from that(1) obtain k' where "(k', d') \<in> set (mDescriptors st)"
      by (auto simp: snapshot_def)
    then show ?thesis using registry_listener_unique[OF assms(2,3)] that(2) by blast
  qed
  have "\<forall>layers\<in>set (traversals env). \<forall>d'\<in>set (snapshot st).
          listener d' = listener d \<longrightarrow> contentAfterStop intersect d' layers"
    using assms(4) only by (auto simp: list_all_iff)
  then have unmarked: "listener d \<notin> passListeners intersect regionBounds env st"
    unfolding passListeners_def by (rule captureScreenCore_unmarked)
  then have inactive: "d \<notin> set (passActive intersect regionBounds env st)"
    by (simp add: passActive_def activeDescriptors_def)
  have "listener d \<notin> fst ` set calls"
    using captureSample_calls[OF assms(5)] unmarked by blast
  with eq sub unmarked inactive show ?thesis by simp
qed

theorem stop_layer_suppresses_rest_witness:
  "list_ex (\<lambda>d. Some (layerId stopLayer9) = stopLayer d) (snapshot exampleState)
   \<and> registryOk (mDescriptors exampleState)
   \<and> (12, descriptorB) \<in> set (mDescriptors exampleState)
   \<and> list_all (contentAfterStop intersects descriptorB) (traversals exampleCapture)
   \<and> captureSample lumaLevel intersects boundsOf exampleCapture exampleState
       = Inr ([(listenerA, 64 / 255)], exampleState)
   \<and> traverseLayers intersects (snapshot exampleState) (passArea boundsOf exampleState) {}
        ([cornerLayer] @ stopLayer9 # [backLayer])
       = ({listenerA}, [cornerLayer])
   \<and> listener descriptorB \<notin> passListeners intersects boundsOf exampleCapture exampleState
   \<and> descriptorB \<notin> set (passActive intersects boundsOf exampleCapture exampleState)
   \<and> listener descriptorB \<notin> fst ` set [(listenerA, 64 / 255 :: real)]"
proof -
  have stop: "list_ex (\<lambda>d. Some (layerId stopLayer9) = stopLayer d) (snapshot exampleState)"
    by (simp add: example_snapshot stopLayer9_def descriptorA_def descriptorB_def)
  have mem: "(12, descriptorB) \<in> set (mDescriptors exampleState)"
    by (simp add: exampleState_registry)
  have after: "list_all (contentAfterStop intersects descriptorB) (traversals exampleCapture)"
    by (simp add: exampleCapture_fields cornerLayer_def stopLayer9_def descriptorB_def
          intersects_def)
  have pre: "traverseLayers intersects (snapshot exampleState) (passArea boundsOf exampleState) {}
               [cornerLayer] = ({listenerA}, [cornerLayer])"
    by (simp add: example_area example_snapshot traverseLayers_def filterVisitor_def
          markIntersecting_def cornerLayer_def descriptorA_def descriptorB_def intersects_def
          Let_def)
  from stop_layer_suppresses_rest[OF stop exampleState_ok mem after example_run,
      where sampledArea = "passArea boundsOf exampleState" and ls = "{}"
        and pre = "[cornerLayer]" and post = "[backLayer]"]
    stop exampleState_ok mem after example_run pre
  show ?thesis by simp
qed

text \<open>
  Claim C10: \<^verbatim>\<open>addListener\<close>, \<^verbatim>\<open>removeListener\<close> and \<^verbatim>\<open>binderDied\<close> leave both flags
  and the entry of every other identity as they are; \<^verbatim>\<open>sampleNow\<close> sets the request flag
  and leaves the registry and the running flag as they are; a pass that returns while no
  other thread changes the guarded state in the window where the mutex is released
  leaves the guarded state, and the registry in particular, as it was.
\<close>

theorem entry_points_frame:
  "(mSampleRequested (addListener samplingArea stopLayerHandle l st) = mSampleRequested st
    \<and> mRunning (addListener samplingArea stopLayerHandle l st) = mRunning st
    \<and> (\<forall>k. k \<noteq> asBinder l \<longrightarrow>
          map_of (mDescriptors (addListener samplingArea stopLayerHandle l st)) k
          = map_of (mDescriptors st) k))
   \<and> (mSampleRequested (removeListener l st) = mSampleRequested st
    \<and> mRunning (removeListener l st) = mRunning st
    \<and> (\<forall>k. k \<noteq> asBinder l \<longrightarrow>
          map_of (mDescriptors (removeListener l st)) k = map_of (mDescriptors st) k))
   \<and> (mSampleRequested (binderDied who st) = mSampleRequested st
    \<and> mRunning (binderDied who st) = mRunning st
    \<and> (\<forall>k. k \<noteq> who \<longrightarrow>
          map_of (mDescriptors (binderDied who st)) k = map_of (mDescriptors st) k))
   \<and> (mSampleRequested (sampleNow st) = True
    \<and> mRunning (sampleNow st) = mRunning st
    \<and> mDescriptors (sampleNow st) = mDescriptors st)
   \<and> (captureSample lumaOf intersect regionBounds env st = Inr (calls, st')
        \<and> whileUnlocked env st = st \<longrightarrow> st' = st)"
proof -
  have "st' = st"
    if "captureSample lumaOf intersect regionBounds env st = Inr (calls, st')"
      and "whileUnlocked env st = st"
    using captureSample_state[OF that(1)] that(2) by simp
  then show ?thesis
    by (simp add: addListener_def removeListener_def binderDied_def sampleNow_def Let_def
          map_of_emplace map_of_erase)
qed

theorem entry_points_frame_witness:
  "12 \<noteq> asBinder listenerA
   \<and> map_of (mDescriptors (addListener \<lparr>left = 4, top_r = 4, right = 6, bottom = 6\<rparr> None
                 listenerA exampleState)) 12 = Some descriptorB
   \<and> map_of (mDescriptors (removeListener listenerA exampleState)) 12 = Some descriptorB
   \<and> map_of (mDescriptors (binderDied 11 exampleState)) 12 = Some descriptorB
   \<and> mSampleRequested (sampleNow exampleState) = True
   \<and> mDescriptors (sampleNow exampleState) = [(11, descriptorA), (12, descriptorB)]
   \<and> captureSample lumaLevel intersects boundsOf exampleCapture exampleState
       = Inr ([(listenerA, 64 / 255)], exampleState)
   \<and> whileUnlocked exampleCapture exampleState = exampleState"
proof -
  note frame = entry_points_frame[of "\<lparr>left = 4, top_r = 4, right = 6, bottom = 6\<rparr>" None
      listenerA exampleState 11 lumaLevel intersects boundsOf exampleCapture
      "[(listenerA, 64 / 255)]" exampleState]
  have k: "12 \<noteq> asBinder listenerA" by (simp add: listenerA_def)
  have k': "(12::nat) \<noteq> 11" by simp
  have b: "map_of (mDescriptors exampleState) 12 = Some descriptorB"
    by (simp add: exampleState_registry)
  have unl: "whileUnlocked exampleCapture exampleState = exampleState"
    by (rule exampleCapture_fields)
  from frame k k' b example_run unl exampleState_registry show ?thesis by simp
qed

end
